theory Spec2Isabelle
  imports Complex_Main "HOL-Library.AList" "HOL-Library.Multiset" "HOL-Library.Sublist"
begin

section \<open>JavaScript values used by the timeline code\<close>

text \<open>
  A JavaScript number is an IEEE double. Every finite double is a rational number, so a
  finite number is modelled by the rational it denotes; the three non-finite values are
  constructors of their own. The two zeros are one value here: the code only ever turns a
  number into a property key (where \<^verbatim>\<open>String(-0)\<close> is \<^verbatim>\<open>"0"\<close>) and back.
\<close>

datatype jsnum = Fin rat | NaN | PosInf | NegInf

text \<open>
  \<^verbatim>\<open>Math.round(x)\<close>: the integral number closest to \<open>x\<close>, ties towards \<open>+\<infinity>\<close>; the
  non-finite values are returned as they are.
\<close>

fun Math_round :: "jsnum \<Rightarrow> jsnum" where
  "Math_round (Fin q) = Fin (of_int \<lfloor>q + 1 / 2\<rfloor>)"
| "Math_round NaN = NaN"
| "Math_round PosInf = PosInf"
| "Math_round NegInf = NegInf"

text \<open>The comparison \<^verbatim>\<open>a < b\<close> of two numbers; any comparison with \<^verbatim>\<open>NaN\<close> is false.\<close>

fun js_less :: "jsnum \<Rightarrow> jsnum \<Rightarrow> bool" where
  "js_less (Fin a) (Fin b) = (a < b)"
| "js_less (Fin a) PosInf = True"
| "js_less NegInf (Fin b) = True"
| "js_less NegInf PosInf = True"
| "js_less _ _ = False"

subsection \<open>Plain objects used as dictionaries\<close>

text \<open>
  An object literal \<^verbatim>\<open>{}\<close> that is only read and written through \<^verbatim>\<open>obj[key]\<close> is an
  association list in property creation order: \<^const>\<open>map_of\<close> reads a key,
  \<^const>\<open>AList.update\<close> overwrites the value of an existing key in place and appends a
  new key at the end.

  \<^verbatim>\<open>Object.entries(obj)\<close> lists the own properties in the order of the language's
  OrdinaryOwnPropertyKeys: first the keys that are array indices (the canonical decimal
  string of an integer from 0 to 2^32 - 2) in ascending numeric order, then every other
  string key in creation order. The parameter \<open>array_index\<close> says which keys are array
  indices, and which index each one is.
\<close>

definition index_of_entry :: "('k \<Rightarrow> nat option) \<Rightarrow> 'k \<times> 'v \<Rightarrow> nat" where
  "index_of_entry array_index e = (case array_index (fst e) of Some i \<Rightarrow> i | None \<Rightarrow> 0)"

definition Object_entries :: "('k \<Rightarrow> nat option) \<Rightarrow> ('k \<times> 'v) list \<Rightarrow> ('k \<times> 'v) list" where
  "Object_entries array_index obj =
     sort_key (index_of_entry array_index) (filter (\<lambda>e. array_index (fst e) \<noteq> None) obj)
     @ filter (\<lambda>e. array_index (fst e) = None) obj"

text \<open>
  A number used as a property key is converted with \<^verbatim>\<open>String\<close>, and \<^verbatim>\<open>Number\<close> of that
  string is the number again, so a numeric key is modelled by the number it was made
  from. Its string is an array index exactly when the number is an integer from 0 to
  2^32 - 2 (larger integers, negative ones, \<^verbatim>\<open>"NaN"\<close> and \<^verbatim>\<open>"Infinity"\<close> are ordinary
  string keys).
\<close>

fun array_index_of_number :: "jsnum \<Rightarrow> nat option" where
  "array_index_of_number (Fin q) =
     (if q = of_int \<lfloor>q\<rfloor> \<and> 0 \<le> q \<and> q < 4294967295 then Some (nat \<lfloor>q\<rfloor>) else None)"
| "array_index_of_number _ = None"

section \<open>Data model of the timeline\<close>

text \<open>
  The declarations of \<^verbatim>\<open>@/types\<close> are not among the sources. The categories are the cases
  of the \<^verbatim>\<open>switch\<close> in \<^verbatim>\<open>getCommitTypeIcon\<close>, and the records hold the fields the
  timeline reads.
\<close>

datatype CommitType = FEATURE | WARNING | MILESTONE | BUG | CHORE

record CommitAnalysis =
  type :: CommitType
  title :: string
  idea :: string

text \<open>
  A commit as the timeline reads it. The type of \<open>date\<close> is whatever
  \<^verbatim>\<open>calculateCommitPosition\<close> accepts, so it is a type parameter. Both spellings of the
  analyses field are optional (\<open>None\<close> is \<^verbatim>\<open>undefined\<close> or \<^verbatim>\<open>null\<close>).
\<close>

record 'd Commit =
  sha :: string
  date :: 'd
  author :: string
  message :: string
  description :: "string option"
  commit_analyses :: "CommitAnalysis list option"
  commit_analises :: "CommitAnalysis list option"

record 'r TimeRange =
  range_start :: 'r
  range_end :: 'r

record 'd ClusteredCommit =
  position :: jsnum
  commits :: "'d Commit list"

section \<open>clusterCommits\<close>

text \<open>
  One pass of the \<^verbatim>\<open>forEach\<close> body. \<^verbatim>\<open>calculateCommitPosition\<close> is imported from
  \<^verbatim>\<open>@/utils/date-utils\<close> and is a parameter here; \<open>timeRange\<close> and \<open>timeScale\<close> are the
  component state the closure reads.
\<close>

definition ensure_bucket :: "(jsnum \<times> 'c list) list \<Rightarrow> jsnum \<Rightarrow> (jsnum \<times> 'c list) list" where
  "ensure_bucket positionMap roundedPosition =
     (case map_of positionMap roundedPosition of
        None \<Rightarrow> AList.update roundedPosition [] positionMap
      | Some _ \<Rightarrow> positionMap)"

definition push_bucket :: "(jsnum \<times> 'c list) list \<Rightarrow> jsnum \<Rightarrow> 'c \<Rightarrow> (jsnum \<times> 'c list) list" where
  "push_bucket positionMap roundedPosition commit =
     (case map_of positionMap roundedPosition of
        Some bucket \<Rightarrow> AList.update roundedPosition (bucket @ [commit]) positionMap
      | None \<Rightarrow> positionMap)"

definition roundedPosition_of ::
  "('d \<Rightarrow> 'r \<Rightarrow> 'r \<Rightarrow> 's \<Rightarrow> jsnum) \<Rightarrow> 'r TimeRange \<Rightarrow> 's \<Rightarrow> 'd Commit \<Rightarrow> jsnum" where
  "roundedPosition_of calculateCommitPosition timeRange timeScale commit =
     Math_round (calculateCommitPosition (date commit) (range_start timeRange)
                   (range_end timeRange) timeScale)"

definition cluster_step ::
  "('d \<Rightarrow> 'r \<Rightarrow> 'r \<Rightarrow> 's \<Rightarrow> jsnum) \<Rightarrow> 'r TimeRange \<Rightarrow> 's \<Rightarrow>
   'd Commit \<Rightarrow> (jsnum \<times> 'd Commit list) list \<Rightarrow> (jsnum \<times> 'd Commit list) list" where
  "cluster_step calculateCommitPosition timeRange timeScale commit positionMap =
     (let roundedPosition = roundedPosition_of calculateCommitPosition timeRange timeScale commit
      in push_bucket (ensure_bucket positionMap roundedPosition) roundedPosition commit)"

definition build_positionMap ::
  "('d \<Rightarrow> 'r \<Rightarrow> 'r \<Rightarrow> 's \<Rightarrow> jsnum) \<Rightarrow> 'r TimeRange \<Rightarrow> 's \<Rightarrow>
   'd Commit list \<Rightarrow> (jsnum \<times> 'd Commit list) list" where
  "build_positionMap calculateCommitPosition timeRange timeScale cs =
     fold (cluster_step calculateCommitPosition timeRange timeScale) cs []"

definition clusterCommits ::
  "('d \<Rightarrow> 'r \<Rightarrow> 'r \<Rightarrow> 's \<Rightarrow> jsnum) \<Rightarrow> 'r TimeRange \<Rightarrow> 's \<Rightarrow>
   'd Commit list \<Rightarrow> string \<Rightarrow> 'd ClusteredCommit list" where
  "clusterCommits calculateCommitPosition timeRange timeScale cs groupName =
     map (\<lambda>(pos, groupedCommits). \<lparr>position = pos, commits = groupedCommits\<rparr>)
       (Object_entries array_index_of_number
          (build_positionMap calculateCommitPosition timeRange timeScale cs))"


section \<open>Effective category and dominant category of a cluster\<close>

text \<open>
  \<^verbatim>\<open>commit.commit_analyses || commit.commit_analises || []\<close>: an array is truthy even when
  it is empty, so the second spelling is read only when the first is absent.
\<close>

definition analyses_of :: "'d Commit \<Rightarrow> CommitAnalysis list" where
  "analyses_of commit =
     (case commit_analyses commit of
        Some xs \<Rightarrow> xs
      | None \<Rightarrow> (case commit_analises commit of Some ys \<Rightarrow> ys | None \<Rightarrow> []))"

text \<open>
  The singleton branch of the render: \<^verbatim>\<open>analyses[0]\<close> is \<^verbatim>\<open>undefined\<close> on an empty array,
  and \<^verbatim>\<open>analysis?.type || 'CHORE'\<close> falls back to \<^verbatim>\<open>'CHORE'\<close> then (a category name is a
  non-empty string and so always truthy).
\<close>

definition first_analysis :: "'d Commit \<Rightarrow> CommitAnalysis option" where
  "first_analysis commit = (case analyses_of commit of [] \<Rightarrow> None | a # _ \<Rightarrow> Some a)"

definition commitType :: "'d Commit \<Rightarrow> CommitType" where
  "commitType commit = (case first_analysis commit of None \<Rightarrow> CHORE | Some analysis \<Rightarrow> type analysis)"

text \<open>The multi-member branch: \<^verbatim>\<open>cluster.commits.map(commit => ... analyses[0]?.type || 'CHORE')\<close>.\<close>

definition commitTypes :: "'d Commit list \<Rightarrow> CommitType list" where
  "commitTypes cs =
     map (\<lambda>commit. case analyses_of commit of [] \<Rightarrow> CHORE | a # _ \<Rightarrow> type a) cs"

text \<open>\<^verbatim>\<open>acc[type] || 0\<close>: \<^verbatim>\<open>undefined\<close> and \<^verbatim>\<open>0\<close> are falsy.\<close>

fun or_zero :: "int option \<Rightarrow> int" where
  "or_zero None = 0"
| "or_zero (Some n) = (if n = 0 then 0 else n)"

definition tally_step :: "CommitType \<Rightarrow> (CommitType \<times> int) list \<Rightarrow> (CommitType \<times> int) list" where
  "tally_step t acc = AList.update t (or_zero (map_of acc t) + 1) acc"

definition mostCommonType :: "CommitType list \<Rightarrow> (CommitType \<times> int) list" where
  "mostCommonType ts = fold tally_step ts []"

text \<open>
  \<^verbatim>\<open>Array.prototype.sort(compare)\<close> is stable, and for a consistent comparator the stable
  sorted order of an array is unique; insertion from the right computes it: an element
  goes before the first element it does not compare greater than.
\<close>

fun insert_by :: "('a \<Rightarrow> 'a \<Rightarrow> int) \<Rightarrow> 'a \<Rightarrow> 'a list \<Rightarrow> 'a list" where
  "insert_by compare x [] = [x]"
| "insert_by compare x (y # ys) =
     (if compare x y \<le> 0 then x # y # ys else y # insert_by compare x ys)"

definition sort_by :: "('a \<Rightarrow> 'a \<Rightarrow> int) \<Rightarrow> 'a list \<Rightarrow> 'a list" where
  "sort_by compare xs = foldr (insert_by compare) xs []"

text \<open>No category name is the decimal string of an integer.\<close>

definition array_index_of_type :: "CommitType \<Rightarrow> nat option" where
  "array_index_of_type t = None"

datatype js_error = TypeError

text \<open>
  \<^verbatim>\<open>Object.entries(mostCommonType).sort((a, b) => b[1] - a[1])[0][0]\<close>; on an empty array
  \<^verbatim>\<open>[0]\<close> is \<^verbatim>\<open>undefined\<close> and reading \<^verbatim>\<open>[0]\<close> of it throws.
\<close>

definition dominantType :: "'d Commit list \<Rightarrow> js_error + CommitType" where
  "dominantType cs =
     (case sort_by (\<lambda>a b. snd b - snd a)
             (Object_entries array_index_of_type (mostCommonType (commitTypes cs))) of
        [] \<Rightarrow> Inl TypeError
      | e # _ \<Rightarrow> Inr (fst e))"

text \<open>
  What the render draws for one cluster: the marker of the single commit, coloured by its
  category, or a cluster marker coloured by the dominant category with the member count.
\<close>

datatype marker =
  CommitMarker string CommitType jsnum
| ClusterMarker CommitType jsnum nat

definition renderCluster :: "'d ClusteredCommit \<Rightarrow> js_error + marker" where
  "renderCluster cluster =
     (case commits cluster of
        [commit] \<Rightarrow> Inr (CommitMarker (sha commit) (commitType commit) (position cluster))
      | cs \<Rightarrow> (case dominantType cs of
                 Inl e \<Rightarrow> Inl e
               | Inr t \<Rightarrow> Inr (ClusterMarker t (position cluster) (length cs))))"

section \<open>Rendering the groups\<close>

text \<open>
  A group name is an arbitrary string; it is an array index when it is the canonical
  decimal string of an integer from 0 to 2^32 - 2.
\<close>

definition is_digit :: "char \<Rightarrow> bool" where
  "is_digit c = (48 \<le> (of_char c :: nat) \<and> (of_char c :: nat) \<le> 57)"

definition decimal_value :: "string \<Rightarrow> nat" where
  "decimal_value s = foldl (\<lambda>n c. 10 * n + (of_char c - 48)) 0 s"

definition array_index_of_string :: "string \<Rightarrow> nat option" where
  "array_index_of_string s =
     (if s \<noteq> [] \<and> list_all is_digit s \<and> (s = ''0'' \<or> hd s \<noteq> CHR ''0'')
         \<and> decimal_value s < 4294967295
      then Some (decimal_value s) else None)"

record 'd Row =
  row_key :: string
  row_clusters :: "'d ClusteredCommit list"

text \<open>
  \<^verbatim>\<open>Object.entries(groupedCommits).map(([groupName, groupCommits]) =>
  groupCommits.length > 0 && (<div key={groupName}> ... </div>))\<close>: an element of the result
  is \<^verbatim>\<open>false\<close> (\<open>None\<close>, which React does not draw) or the row of the group.
  \<open>groupedCommits\<close> is the result of \<^verbatim>\<open>groupCommits\<close> from \<^verbatim>\<open>@/utils/filter-utils\<close>, a
  parameter here.
\<close>

definition renderGroups ::
  "('d \<Rightarrow> 'r \<Rightarrow> 'r \<Rightarrow> 's \<Rightarrow> jsnum) \<Rightarrow> 'r TimeRange \<Rightarrow> 's \<Rightarrow>
   (string \<times> 'd Commit list) list \<Rightarrow> 'd Row option list" where
  "renderGroups calculateCommitPosition timeRange timeScale groupedCommits =
     map (\<lambda>(groupName, groupCommits).
            if length groupCommits > 0
            then Some \<lparr>row_key = groupName,
                       row_clusters = clusterCommits calculateCommitPosition timeRange timeScale
                                        groupCommits groupName\<rparr>
            else None)
       (Object_entries array_index_of_string groupedCommits)"

definition renderedRows ::
  "('d \<Rightarrow> 'r \<Rightarrow> 'r \<Rightarrow> 's \<Rightarrow> jsnum) \<Rightarrow> 'r TimeRange \<Rightarrow> 's \<Rightarrow>
   (string \<times> 'd Commit list) list \<Rightarrow> 'd Row list" where
  "renderedRows calculateCommitPosition timeRange timeScale groupedCommits =
     concat (map (\<lambda>r. case r of None \<Rightarrow> [] | Some row \<Rightarrow> [row])
               (renderGroups calculateCommitPosition timeRange timeScale groupedCommits))"

section \<open>Grouping the commits\<close>

text \<open>
  Modelled from the spec: \<^verbatim>\<open>groupCommits\<close> of \<^verbatim>\<open>@/utils/filter-utils\<close> and the \<^verbatim>\<open>GroupBy\<close>
  type of \<^verbatim>\<open>@/types\<close>, which are not among the sources. The spec (4.3): given a
  collection of events and a grouping key, the result maps a group name to the ordered
  sequence of the events of that group, each event keeping its relative order; category
  grouping uses the effective category, author grouping the author field verbatim, date
  grouping a calendar-day string derived from the timestamp; groups with zero members
  are omitted; no event is in more than one group. The mapping is an object in creation
  order, a group being created when its first event arrives. The calendar-day string of a
  date is a parameter.
\<close>

datatype GroupBy = ByType | ByAuthor | ByDate

fun CommitType_name :: "CommitType \<Rightarrow> string" where
  "CommitType_name FEATURE = ''FEATURE''"
| "CommitType_name WARNING = ''WARNING''"
| "CommitType_name MILESTONE = ''MILESTONE''"
| "CommitType_name BUG = ''BUG''"
| "CommitType_name CHORE = ''CHORE''"

fun groupName_of :: "('d \<Rightarrow> string) \<Rightarrow> GroupBy \<Rightarrow> 'd Commit \<Rightarrow> string" where
  "groupName_of dayString ByType commit = CommitType_name (commitType commit)"
| "groupName_of dayString ByAuthor commit = author commit"
| "groupName_of dayString ByDate commit = dayString (date commit)"

definition group_step ::
  "('d \<Rightarrow> string) \<Rightarrow> GroupBy \<Rightarrow> 'd Commit \<Rightarrow> (string \<times> 'd Commit list) list \<Rightarrow>
   (string \<times> 'd Commit list) list" where
  "group_step dayString groupBy commit groups =
     (let name = groupName_of dayString groupBy commit
      in AList.update name
           ((case map_of groups name of None \<Rightarrow> [] | Some members \<Rightarrow> members) @ [commit])
           groups)"

definition groupCommits ::
  "('d \<Rightarrow> string) \<Rightarrow> 'd Commit list \<Rightarrow> GroupBy \<Rightarrow> (string \<times> 'd Commit list) list" where
  "groupCommits dayString cs groupBy = fold (group_step dayString groupBy) cs []"

section \<open>Regular expressions of the URL functions\<close>

text \<open>
  The constructs the two regular expressions of the repository use: a literal, an
  optional part \<^verbatim>\<open>r?\<close>, a repeated character class \<^verbatim>\<open>[..]*\<close> and \<^verbatim>\<open>[..]+\<close>, a
  sequence and the end anchor \<^verbatim>\<open>$\<close> (no multiline flag). \<open>rmatch r s\<close> lists what is left of
  \<open>s\<close> after each way \<open>r\<close> can match a prefix of it, in the order a backtracking matcher
  tries them: quantifiers are greedy, so the longest repetition comes first.
\<close>

datatype regex =
  Lit string
| Opt regex
| Star "char \<Rightarrow> bool"
| Plus "char \<Rightarrow> bool"
| Seq regex regex
| Eos

fun rmatch :: "regex \<Rightarrow> string \<Rightarrow> string list" where
  "rmatch (Lit l) s = (if prefix l s then [drop (length l) s] else [])"
| "rmatch (Opt r) s = rmatch r s @ [s]"
| "rmatch (Star cls) s = map (\<lambda>k. drop k s) (rev [0..<Suc (length (takeWhile cls s))])"
| "rmatch (Plus cls) s = map (\<lambda>k. drop k s) (rev [1..<Suc (length (takeWhile cls s))])"
| "rmatch (Seq a b) s = concat (map (rmatch b) (rmatch a s))"
| "rmatch Eos s = (if s = [] then [s] else [])"

text \<open>Character classes. \<^verbatim>\<open>\w\<close> is \<^verbatim>\<open>[A-Za-z0-9_]\<close>; \<^verbatim>\<open>.\<close> is any character but a line terminator.\<close>

definition word_char :: "char \<Rightarrow> bool" where
  "word_char c =
     (let n = (of_char c :: nat)
      in (65 \<le> n \<and> n \<le> 90) \<or> (97 \<le> n \<and> n \<le> 122) \<or> (48 \<le> n \<and> n \<le> 57) \<or> c = CHR ''_'')"

definition word_or_dash :: "char \<Rightarrow> bool" where
  "word_or_dash c = (word_char c \<or> c = CHR ''-'')"

definition word_dot_or_dash :: "char \<Rightarrow> bool" where
  "word_dot_or_dash c = (word_char c \<or> c = CHR ''.'' \<or> c = CHR ''-'')"

definition any_char :: "char \<Rightarrow> bool" where
  "any_char c = (c \<noteq> CHR 0x0A \<and> c \<noteq> CHR 0x0D)"

definition not_slash :: "char \<Rightarrow> bool" where
  "not_slash c = (c \<noteq> CHR ''/'')"

section \<open>extractRepoNameFromUrl\<close>

text \<open>\<^verbatim>\<open>url.split(/[?#]/)[0]\<close>: the part before the first \<^verbatim>\<open>?\<close> or \<^verbatim>\<open>#\<close>.\<close>

definition urlWithoutParams :: "string \<Rightarrow> string" where
  "urlWithoutParams url = takeWhile (\<lambda>c. c \<noteq> CHR ''?'' \<and> c \<noteq> CHR ''#'') url"

text \<open>\<^verbatim>\<open>.replace(/\.git$/, '')\<close>.\<close>

definition cleanUrl :: "string \<Rightarrow> string" where
  "cleanUrl url =
     (let u = urlWithoutParams url
      in if suffix ''.git'' u then take (length u - 4) u else u)"

text \<open>
  \<^verbatim>\<open>/github\.com\/([^/]+\/[^/]+)/\<close>: the part before the group and the group itself.
  \<open>captures_at s\<close> lists the values of group 1 for the matches that start at the head of
  \<open>s\<close>, in backtracking order; \<^verbatim>\<open>String.prototype.match\<close> tries the start positions from
  the left and takes the first match of the first position that has one.
\<close>

definition repo_prefix :: regex where
  "repo_prefix = Lit ''github.com/''"

definition repo_group :: regex where
  "repo_group = Seq (Plus not_slash) (Seq (Lit ''/'') (Plus not_slash))"

definition captures_at :: "string \<Rightarrow> string list" where
  "captures_at s =
     concat (map (\<lambda>r1. map (\<lambda>r2. take (length r1 - length r2) r1) (rmatch repo_group r1))
               (rmatch repo_prefix s))"

fun match_repo :: "string \<Rightarrow> string option" where
  "match_repo [] = (case captures_at [] of [] \<Rightarrow> None | g # _ \<Rightarrow> Some g)"
| "match_repo (c # cs) = (case captures_at (c # cs) of [] \<Rightarrow> match_repo cs | g # _ \<Rightarrow> Some g)"

definition extractRepoNameFromUrl :: "string \<Rightarrow> string" where
  "extractRepoNameFromUrl url = (case match_repo (cleanUrl url) of Some g \<Rightarrow> g | None \<Rightarrow> [])"

subsection \<open>The same function in words\<close>

text \<open>
  The owner/repo pair right after a \<^verbatim>\<open>github.com/\<close>: a non-empty run without \<^verbatim>\<open>/\<close>, a
  \<^verbatim>\<open>/\<close>, and a second non-empty run without \<^verbatim>\<open>/\<close>.
\<close>

definition pair_after :: "string \<Rightarrow> string option" where
  "pair_after rest =
     (let owner = takeWhile (\<lambda>c. c \<noteq> CHR ''/'') rest;
          after = dropWhile (\<lambda>c. c \<noteq> CHR ''/'') rest;
          repo = takeWhile (\<lambda>c. c \<noteq> CHR ''/'') (tl after)
      in if owner \<noteq> [] \<and> after \<noteq> [] \<and> repo \<noteq> [] then Some (owner @ ''/'' @ repo) else None)"

text \<open>
  The pair after the first \<^verbatim>\<open>github.com/\<close> that has one; an occurrence without a pair
  after it is passed over.
\<close>

fun first_repo_pair :: "string \<Rightarrow> string option" where
  "first_repo_pair [] = None"
| "first_repo_pair (c # cs) =
     (if prefix ''github.com/'' (c # cs)
      then (case pair_after (drop 11 (c # cs)) of
              Some p \<Rightarrow> Some p
            | None \<Rightarrow> first_repo_pair cs)
      else first_repo_pair cs)"

text \<open>The text that follows the first occurrence of \<open>needle\<close> in a string, if there is one.\<close>

fun text_after_first :: "string \<Rightarrow> string \<Rightarrow> string option" where
  "text_after_first needle [] = (if needle = [] then Some [] else None)"
| "text_after_first needle (c # cs) =
     (if prefix needle (c # cs) then Some (drop (length needle) (c # cs))
      else text_after_first needle cs)"

section \<open>The repository input form\<close>

text \<open>
  \<^verbatim>\<open>/^https?:\/\/(www\.)?github\.com\/[\w-]+\/[\w.-]+\/?.*$/\<close>. The pattern starts with
  \<^verbatim>\<open>^\<close>, so \<^verbatim>\<open>test\<close> tries a match at the start of the string only.
\<close>

definition githubRegex :: regex where
  "githubRegex =
     Seq (Lit ''http'') (Seq (Opt (Lit ''s'')) (Seq (Lit ''://'') (Seq (Opt (Lit ''www.''))
       (Seq (Lit ''github.com/'') (Seq (Plus word_or_dash) (Seq (Lit ''/'')
         (Seq (Plus word_dot_or_dash) (Seq (Opt (Lit ''/'')) (Seq (Star any_char) Eos)))))))))"

definition validateUrl :: "string \<Rightarrow> bool" where
  "validateUrl url = (rmatch githubRegex url \<noteq> [])"

text \<open>
  \<^verbatim>\<open>String.prototype.trim\<close> removes white space and line terminators from both ends; of
  those, the characters below are the ones a \<^typ>\<open>char\<close> can hold.
\<close>

definition is_space :: "char \<Rightarrow> bool" where
  "is_space c = ((of_char c :: nat) \<in> {9, 10, 11, 12, 13, 32, 160})"

definition trim :: "string \<Rightarrow> string" where
  "trim s = rev (dropWhile is_space (rev (dropWhile is_space s)))"

text \<open>
  What a submit does, in order: the toasts shown, the writes of \<open>checkingRepo\<close> and the
  calls of the two asynchronous collaborators. \<^verbatim>\<open>checkRepoExists\<close> and the \<^verbatim>\<open>onSubmit\<close>
  callback are parameters; \<open>Inl\<close> is a rejected promise. Console output is left out.
\<close>

datatype effect =
  PreventDefault
| ToastError string
| SetCheckingRepo bool
| CheckRepoExists string
| OnSubmit string string bool

definition handleSubmit ::
  "(string \<Rightarrow> unit + bool) \<Rightarrow> (string \<Rightarrow> string \<Rightarrow> bool \<Rightarrow> unit + unit) \<Rightarrow> string \<Rightarrow> effect list" where
  "handleSubmit checkRepoExists onSubmit url =
     PreventDefault #
     (if trim url = [] then [ToastError ''Please enter a repository URL'']
      else if \<not> validateUrl url then [ToastError ''Please enter a valid GitHub repository URL'']
      else
        (let repoName = extractRepoNameFromUrl url
         in if repoName = [] then [ToastError ''Could not extract repository name from URL'']
            else
              SetCheckingRepo True # CheckRepoExists repoName #
              (case checkRepoExists repoName of
                 Inl _ \<Rightarrow>
                   [ToastError ''Failed to process repository. Please try again.'',
                    SetCheckingRepo False]
               | Inr exists \<Rightarrow>
                   SetCheckingRepo False # OnSubmit url repoName exists #
                   (case onSubmit url repoName exists of
                      Inl _ \<Rightarrow>
                        [ToastError ''Failed to process repository. Please try again.'',
                         SetCheckingRepo False]
                    | Inr _ \<Rightarrow> []))))"

section \<open>clusterCommits on the component state and the heap\<close>

text \<open>
  The same function with its effects written out. The state holds what a call could read
  or write: the state variables of the \<^verbatim>\<open>Timeline\<close> component and the arrays of commits that
  exist, each at an address (its index in \<open>arrays\<close>). The \<^verbatim>\<open>commits\<close> argument is the address
  of an array. \<^verbatim>\<open>positionMap[roundedPosition] = []\<close> creates an array at a new address,
  \<^verbatim>\<open>positionMap[roundedPosition].push(commit)\<close> changes the array at the address stored in
  the map, \<^verbatim>\<open>forEach\<close> visits the indices below the length the array had at the start and
  reads each element when it gets there, and the clusters returned hold the addresses
  of their member arrays. \<open>positionMap\<close> is a local constant of the call.
  \<^verbatim>\<open>calculateCommitPosition\<close> stays a function of its four arguments.
\<close>

record ('d, 'r, 's) TimelineState =
  timeRange :: "'r TimeRange"
  timeScale :: 's
  hoveredCommit :: "string option"
  openClusterDialog :: bool
  selectedCluster :: "(jsnum \<times> nat) option"
  arrays :: "'d Commit list list"

record ClusteredCommitRef =
  position_of :: jsnum
  commits_at :: nat

definition create_bucket ::
  "('d, 'r, 's) TimelineState \<Rightarrow> (jsnum \<times> nat) list \<Rightarrow> jsnum \<Rightarrow>
   ('d, 'r, 's) TimelineState \<times> (jsnum \<times> nat) list" where
  "create_bucket s positionMap roundedPosition =
     (case map_of positionMap roundedPosition of
        None \<Rightarrow> (s\<lparr>arrays := arrays s @ [[]]\<rparr>,
                 AList.update roundedPosition (length (arrays s)) positionMap)
      | Some _ \<Rightarrow> (s, positionMap))"

definition push_commit ::
  "('d, 'r, 's) TimelineState \<Rightarrow> (jsnum \<times> nat) list \<Rightarrow> jsnum \<Rightarrow> 'd Commit \<Rightarrow>
   ('d, 'r, 's) TimelineState" where
  "push_commit s positionMap roundedPosition commit =
     (case map_of positionMap roundedPosition of
        Some a \<Rightarrow> s\<lparr>arrays := (arrays s)[a := arrays s ! a @ [commit]]\<rparr>
      | None \<Rightarrow> s)"

definition forEach_body ::
  "('d \<Rightarrow> 'r \<Rightarrow> 'r \<Rightarrow> 's \<Rightarrow> jsnum) \<Rightarrow> nat \<Rightarrow> nat \<Rightarrow>
   ('d, 'r, 's) TimelineState \<times> (jsnum \<times> nat) list \<Rightarrow>
   ('d, 'r, 's) TimelineState \<times> (jsnum \<times> nat) list" where
  "forEach_body calculateCommitPosition commitsRef i state =
     (let s = fst state; positionMap = snd state
      in if i < length (arrays s ! commitsRef)
         then
           (let commit = arrays s ! commitsRef ! i;
                roundedPosition =
                  Math_round (calculateCommitPosition (date commit) (range_start (timeRange s))
                                (range_end (timeRange s)) (timeScale s));
                created = create_bucket s positionMap roundedPosition
            in (push_commit (fst created) (snd created) roundedPosition commit, snd created))
         else state)"

definition clusterCommits_on ::
  "('d \<Rightarrow> 'r \<Rightarrow> 'r \<Rightarrow> 's \<Rightarrow> jsnum) \<Rightarrow> ('d, 'r, 's) TimelineState \<Rightarrow> nat \<Rightarrow> string \<Rightarrow>
   ClusteredCommitRef list \<times> ('d, 'r, 's) TimelineState" where
  "clusterCommits_on calculateCommitPosition s commitsRef groupName =
     (let final = fold (forEach_body calculateCommitPosition commitsRef)
                    [0..<length (arrays s ! commitsRef)] (s, [])
      in (map (\<lambda>(pos, a). \<lparr>position_of = pos, commits_at = a\<rparr>)
            (Object_entries array_index_of_number (snd final)),
          fst final))"

text \<open>The clusters a result denotes in a state: each address replaced by the array there.\<close>

definition clusters_in ::
  "('d, 'r, 's) TimelineState \<Rightarrow> ClusteredCommitRef list \<Rightarrow> 'd ClusteredCommit list" where
  "clusters_in s refs =
     map (\<lambda>c. \<lparr>position = position_of c, commits = arrays s ! commits_at c\<rparr>) refs"

text \<open>The position map that a map from keys to addresses denotes, given the arrays.\<close>

definition buckets_of :: "'c list list \<Rightarrow> (jsnum \<times> nat) list \<Rightarrow> (jsnum \<times> 'c list) list" where
  "buckets_of h positionMap = map (\<lambda>e. (fst e, h ! snd e)) positionMap"

section \<open>Concrete inputs\<close>

text \<open>
  Modelled from the spec: the \<^verbatim>\<open>TimeScale\<close> type of \<^verbatim>\<open>@/types\<close>, with the granularities
  the spec lists. The functions above take the time scale as a type parameter.
\<close>

datatype TimeScale = Hour | Day | Week | Month | Year

text \<open>
  Modelled from the spec: \<^verbatim>\<open>calculateCommitPosition\<close> of \<^verbatim>\<open>@/utils/date-utils\<close>, which is
  not among the sources. The spec gives position = 100 * (timestamp - start) / (end - start);
  instants are milliseconds since the epoch, and a division by zero gives a non-finite
  number as in JavaScript. Only the concrete examples below use it; the general
  statements hold for every position function.
\<close>

definition calculateCommitPosition_spec :: "int \<Rightarrow> int \<Rightarrow> int \<Rightarrow> TimeScale \<Rightarrow> jsnum" where
  "calculateCommitPosition_spec t s e scale =
     (if e = s then (if t = s then NaN else if s < t then PosInf else NegInf)
      else Fin (100 * of_int (t - s) / of_int (e - s)))"

definition analysis_of_type :: "CommitType \<Rightarrow> CommitAnalysis" where
  "analysis_of_type t = \<lparr>type = t, title = ''title'', idea = ''idea''\<rparr>"

definition commit_at :: "string \<Rightarrow> int \<Rightarrow> CommitAnalysis list option \<Rightarrow> int Commit" where
  "commit_at s d as =
     \<lparr>sha = s, date = d, author = ''ann'', message = ''msg'', description = None,
      commit_analyses = as, commit_analises = None\<rparr>"

definition range_0_100 :: "int TimeRange" where
  "range_0_100 = \<lparr>range_start = 0, range_end = 100\<rparr>"

text \<open>The index of the first occurrence of \<open>x\<close> in a list (its length when there is none).\<close>

definition first_index :: "'a list \<Rightarrow> 'a \<Rightarrow> nat" where
  "first_index xs x = length (takeWhile (\<lambda>y. y \<noteq> x) xs)"

definition commits_of_types :: "CommitType list \<Rightarrow> int Commit list" where
  "commits_of_types ts = map (\<lambda>t. commit_at ''sha'' 50 (Some [analysis_of_type t])) ts"

definition commits_7_3_7 :: "int Commit list" where
  "commits_7_3_7 = [commit_at ''a'' 7 None, commit_at ''b'' 3 None, commit_at ''c'' 7 None]"

definition groups_with_empty :: "(string \<times> int Commit list) list" where
  "groups_with_empty = [(''FEATURE'', []), (''BUG'', commits_7_3_7), (''CHORE'', [])]"

definition range_0_1000 :: "int TimeRange" where
  "range_0_1000 = \<lparr>range_start = 0, range_end = 1000\<rparr>"

text \<open>Commits at the positions 7.2, 7.4 and 7.5 of \<^const>\<open>range_0_1000\<close>.\<close>

definition commits_fractional :: "int Commit list" where
  "commits_fractional = [commit_at ''a'' 72 None, commit_at ''b'' 74 None, commit_at ''c'' 75 None]"

definition day_of :: "int \<Rightarrow> string" where
  "day_of d = ''1970-01-01''"

text \<open>
  Two states that agree on the time range, the time scale and the commits of the group,
  and differ in everything else: the other state variables, the other arrays and the
  address of the group's array.
\<close>

definition state_one :: "(int, int, TimeScale) TimelineState" where
  "state_one =
     \<lparr>timeRange = range_0_100, timeScale = Day, hoveredCommit = None,
      openClusterDialog = False, selectedCluster = None, arrays = [commits_7_3_7]\<rparr>"

definition state_two :: "(int, int, TimeScale) TimelineState" where
  "state_two =
     \<lparr>timeRange = range_0_100, timeScale = Day, hoveredCommit = Some ''a'',
      openClusterDialog = True, selectedCluster = Some (Fin 3, 0),
      arrays = [[commit_at ''z'' 1 None], [], commits_7_3_7]\<rparr>"

definition commits_huge :: "int Commit list" where
  "commits_huge = [commit_at ''a'' 4294967296 None, commit_at ''b'' 4294967295 None]"

section \<open>Properties of objects and of the position map\<close>

lemma Object_entries_mset: "mset (Object_entries idx obj) = mset obj"
  by (simp add: Object_entries_def union_commute)

lemma Object_entries_set: "set (Object_entries idx obj) = set obj"
  by (metis Object_entries_mset set_mset_mset)

lemma Object_entries_distinct:
  "distinct (map fst obj) \<Longrightarrow> distinct (map fst (Object_entries idx obj))"
  by (metis Object_entries_mset mset_map mset_eq_imp_distinct_iff)

lemma ensure_bucket_map_of:
  "map_of (ensure_bucket m k) k' =
     (if k' = k then Some (case map_of m k of None \<Rightarrow> [] | Some xs \<Rightarrow> xs) else map_of m k')"
  by (auto simp: ensure_bucket_def update_conv' split: option.splits)

text \<open>The bucket pushed to always exists: the \<open>None\<close> branch of \<^const>\<open>push_bucket\<close> is never taken.\<close>

lemma cluster_step_map_of:
  "map_of (cluster_step calc tr ts c m) k =
     (if k = roundedPosition_of calc tr ts c
      then Some ((case map_of m k of None \<Rightarrow> [] | Some xs \<Rightarrow> xs) @ [c])
      else map_of m k)"
  by (auto simp: cluster_step_def push_bucket_def ensure_bucket_map_of update_conv' Let_def
           split: option.splits)

lemma cluster_step_distinct:
  "distinct (map fst m) \<Longrightarrow> distinct (map fst (cluster_step calc tr ts c m))"
  by (auto simp: cluster_step_def push_bucket_def ensure_bucket_def Let_def distinct_update
           split: option.splits)

lemma build_positionMap_snoc:
  "build_positionMap calc tr ts (cs @ [c]) =
     cluster_step calc tr ts c (build_positionMap calc tr ts cs)"
  by (simp add: build_positionMap_def)

lemma build_positionMap_distinct: "distinct (map fst (build_positionMap calc tr ts cs))"
proof (induction cs rule: rev_induct)
  case Nil
  show ?case by (simp add: build_positionMap_def)
next
  case (snoc c cs)
  then show ?case by (simp add: build_positionMap_snoc cluster_step_distinct)
qed

lemma build_positionMap_map_of:
  "map_of (build_positionMap calc tr ts cs) k =
     (if k \<in> roundedPosition_of calc tr ts ` set cs
      then Some (filter (\<lambda>c. roundedPosition_of calc tr ts c = k) cs) else None)"
proof (induction cs arbitrary: k rule: rev_induct)
  case Nil
  show ?case by (simp add: build_positionMap_def)
next
  case (snoc c cs)
  show ?case
    by (auto simp: build_positionMap_snoc cluster_step_map_of snoc.IH filter_empty_conv
                   empty_filter_conv image_iff)
qed

lemma update_members:
  "map_of m k = Some xs \<Longrightarrow>
     mset (concat (map snd (AList.update k (xs @ [c]) m))) = add_mset c (mset (concat (map snd m)))"
  by (induction m) (auto split: if_splits)

lemma update_members_new:
  "map_of m k = None \<Longrightarrow>
     mset (concat (map snd (AList.update k xs m))) = mset xs + mset (concat (map snd m))"
  by (induction m) (auto split: if_splits)

lemma cluster_step_members:
  "mset (concat (map snd (cluster_step calc tr ts c m))) = add_mset c (mset (concat (map snd m)))"
proof (cases "map_of m (roundedPosition_of calc tr ts c)")
  case None
  let ?k = "roundedPosition_of calc tr ts c"
  have e: "ensure_bucket m ?k = AList.update ?k [] m"
    using None by (simp add: ensure_bucket_def)
  have l: "map_of (AList.update ?k [] m) ?k = Some []"
    by (simp add: update_conv')
  have "cluster_step calc tr ts c m = AList.update ?k ([] @ [c]) (AList.update ?k [] m)"
    using l by (simp add: cluster_step_def Let_def push_bucket_def e)
  then show ?thesis
    using update_members [OF l, of c] update_members_new [OF None, of "[]"] by simp
next
  case (Some xs)
  then show ?thesis
    by (simp add: cluster_step_def Let_def push_bucket_def ensure_bucket_map_of update_members
                  ensure_bucket_def)
qed

lemma build_positionMap_members:
  "mset (concat (map snd (build_positionMap calc tr ts cs))) = mset cs"
proof (induction cs rule: rev_induct)
  case Nil
  show ?case by (simp add: build_positionMap_def)
next
  case (snoc c cs)
  then show ?case by (simp add: build_positionMap_snoc cluster_step_members)
qed

lemma members_perm:
  "mset xs = mset ys \<Longrightarrow> mset (concat (map snd xs)) = mset (concat (map snd ys))"
  by (metis mset_concat mset_map sum_mset_sum_list)

lemma clusterCommits_commits:
  "map commits (clusterCommits calc tr ts cs g) =
     map snd (Object_entries array_index_of_number (build_positionMap calc tr ts cs))"
  by (simp add: clusterCommits_def comp_def case_prod_beta)

lemma clusterCommits_position:
  "map position (clusterCommits calc tr ts cs g) =
     map fst (Object_entries array_index_of_number (build_positionMap calc tr ts cs))"
  by (simp add: clusterCommits_def comp_def case_prod_beta)

lemma build_positionMap_keys:
  "set (map fst (build_positionMap calc tr ts cs)) = roundedPosition_of calc tr ts ` set cs"
proof -
  have "set (map fst (build_positionMap calc tr ts cs)) = dom (map_of (build_positionMap calc tr ts cs))"
    by (simp add: dom_map_of_conv_image_fst)
  also have "\<dots> = roundedPosition_of calc tr ts ` set cs"
    by (auto simp: dom_def build_positionMap_map_of)
  finally show ?thesis .
qed

lemma build_positionMap_entry:
  assumes "(k, xs) \<in> set (build_positionMap calc tr ts cs)"
  shows "xs = filter (\<lambda>c. roundedPosition_of calc tr ts c = k) cs"
proof -
  have "map_of (build_positionMap calc tr ts cs) k = Some xs"
    using assms build_positionMap_distinct by (metis map_of_is_SomeI)
  then show ?thesis by (simp add: build_positionMap_map_of split: if_splits)
qed

lemma clusterCommits_member:
  assumes "c \<in> set (clusterCommits calc tr ts cs g)"
  shows "commits c = filter (\<lambda>x. roundedPosition_of calc tr ts x = position c) cs"
proof -
  from assms obtain k xs where
    e: "(k, xs) \<in> set (Object_entries array_index_of_number (build_positionMap calc tr ts cs))"
    and c: "c = \<lparr>position = k, commits = xs\<rparr>"
    by (auto simp: clusterCommits_def)
  from e have "(k, xs) \<in> set (build_positionMap calc tr ts cs)"
    by (simp add: Object_entries_set)
  then show ?thesis using c by (simp add: build_positionMap_entry)
qed

lemma clusterCommits_positions_set:
  "set (map position (clusterCommits calc tr ts cs g)) = roundedPosition_of calc tr ts ` set cs"
proof -
  have "set (map position (clusterCommits calc tr ts cs g))
        = fst ` set (Object_entries array_index_of_number (build_positionMap calc tr ts cs))"
    by (simp add: clusterCommits_position)
  also have "\<dots> = set (map fst (build_positionMap calc tr ts cs))"
    by (simp add: Object_entries_set)
  finally show ?thesis by (simp only: build_positionMap_keys)
qed

lemma clusterCommits_positions_distinct:
  "distinct (map position (clusterCommits calc tr ts cs g))"
  by (simp only: clusterCommits_position Object_entries_distinct build_positionMap_distinct)

lemma Math_round_nearest:
  "Math_round (Fin q) = Fin (of_int \<lfloor>q + 1 / 2\<rfloor>)
   \<and> of_int \<lfloor>q + 1 / 2\<rfloor> - 1 / 2 \<le> q \<and> q < of_int \<lfloor>q + 1 / 2\<rfloor> + 1 / 2"
proof (intro conjI)
  show "Math_round (Fin q) = Fin (of_int \<lfloor>q + 1 / 2\<rfloor>)" by simp
  have a: "of_int \<lfloor>q + 1 / 2\<rfloor> \<le> q + 1 / 2" by (rule of_int_floor_le)
  have b: "q + 1 / 2 < of_int \<lfloor>q + 1 / 2\<rfloor> + 1" by linarith
  show "of_int \<lfloor>q + 1 / 2\<rfloor> - 1 / 2 \<le> q" using a by linarith
  show "q < of_int \<lfloor>q + 1 / 2\<rfloor> + 1 / 2" using b by linarith
qed

lemma Math_round_not_finite:
  "v = NaN \<or> v = PosInf \<or> v = NegInf \<Longrightarrow> Math_round v = v"
  by auto

lemma cluster_of_commit:
  assumes "x \<in> set cs"
  shows "\<exists>c \<in> set (clusterCommits calc tr ts cs g).
           x \<in> set (commits c) \<and> position c = roundedPosition_of calc tr ts x"
proof -
  have "roundedPosition_of calc tr ts x \<in> set (map position (clusterCommits calc tr ts cs g))"
    using assms by (simp only: clusterCommits_positions_set) simp
  then obtain c where c: "c \<in> set (clusterCommits calc tr ts cs g)"
    and p: "position c = roundedPosition_of calc tr ts x"
    by auto
  have "x \<in> set (commits c)" using assms p by (simp add: clusterCommits_member [OF c])
  with c p show ?thesis by blast
qed

subsection \<open>The examples evaluated\<close>

lemma floor_rat_numeral_divide:
  "\<lfloor>(numeral a :: rat) / numeral b\<rfloor> = numeral a div numeral b"
  using floor_divide_of_int_eq [of "numeral a" "numeral b", where ?'a = rat] by simp

lemmas cluster_eval =
  clusterCommits_def build_positionMap_def cluster_step_def roundedPosition_of_def
  calculateCommitPosition_spec_def range_0_100_def commit_at_def ensure_bucket_def
  push_bucket_def Object_entries_def index_of_entry_def floor_rat_numeral_divide

lemma rounded_7_3_7:
  "map (roundedPosition_of calculateCommitPosition_spec range_0_100 Day) commits_7_3_7
     = [Fin 7, Fin 3, Fin 7]"
  by (simp add: commits_7_3_7_def cluster_eval)

lemma clusters_7_3_7:
  "clusterCommits calculateCommitPosition_spec range_0_100 Day commits_7_3_7 ''row''
     = [\<lparr>position = Fin 3, commits = [commit_at ''b'' 3 None]\<rparr>,
        \<lparr>position = Fin 7, commits = [commit_at ''a'' 7 None, commit_at ''c'' 7 None]\<rparr>]"
  by (simp add: commits_7_3_7_def cluster_eval)

lemmas fractional_eval = cluster_eval range_0_1000_def commits_fractional_def

lemma clusters_fractional:
  "clusterCommits calculateCommitPosition_spec range_0_1000 Day commits_fractional ''row''
     = [\<lparr>position = Fin 7, commits = [commit_at ''a'' 72 None, commit_at ''b'' 74 None]\<rparr>,
        \<lparr>position = Fin 8, commits = [commit_at ''c'' 75 None]\<rparr>]"
  by (simp add: fractional_eval)

lemma positions_fractional:
  "calculateCommitPosition_spec (date (commit_at ''a'' 72 None)) (range_start range_0_1000)
     (range_end range_0_1000) Day = Fin (36 / 5)"
  "calculateCommitPosition_spec (date (commit_at ''b'' 74 None)) (range_start range_0_1000)
     (range_end range_0_1000) Day = Fin (37 / 5)"
  "calculateCommitPosition_spec (date (commit_at ''c'' 75 None)) (range_start range_0_1000)
     (range_end range_0_1000) Day = Fin (15 / 2)"
  by (simp_all add: fractional_eval)

section \<open>The claims about clustering\<close>

text \<open>
  C1, clustering conservation. For every list of commits, every position function, time
  range and time scale, the member counts of the clusters returned by \<open>clusterCommits\<close>
  add up to the length of the input list, and the members of all clusters together are the
  input commits, each as often as it occurs in the input (so every input commit is in
  exactly one cluster).
\<close>

theorem clusterCommits_conservation:
  "sum_list (map (\<lambda>cluster. length (commits cluster)) (clusterCommits calc tr ts cs g)) = length cs
   \<and> mset (concat (map commits (clusterCommits calc tr ts cs g))) = mset cs"
proof -
  have m: "mset (concat (map commits (clusterCommits calc tr ts cs g))) = mset cs"
    unfolding clusterCommits_commits
    using members_perm [OF Object_entries_mset] build_positionMap_members by metis
  have "sum_list (map (\<lambda>cluster. length (commits cluster)) (clusterCommits calc tr ts cs g))
        = length (concat (map commits (clusterCommits calc tr ts cs g)))"
    by (simp add: length_concat comp_def)
  also have "\<dots> = length cs" using m by (metis size_mset)
  finally show ?thesis using m by simp
qed

text \<open>
  C2, collision bucketing. The clusters have pairwise different positions, the positions are
  exactly the rounded positions that occur in the input, the members of a cluster are the
  input commits whose rounded position is the cluster's position, in input order, and two
  input commits are members of one cluster if and only if their rounded positions are equal.
  The rounded position is the nearest whole number: a commit whose computed position is
  the finite number \<open>q\<close> is a member of the cluster whose position is the integer \<open>n\<close> with
  \<open>n - 1/2 \<le> q < n + 1/2\<close> (a tie goes up), and a commit whose computed position is not
  finite is a member of the cluster with that very position.
\<close>

theorem clusterCommits_buckets:
  "distinct (map position (clusterCommits calc tr ts cs g))
   \<and> set (map position (clusterCommits calc tr ts cs g)) = roundedPosition_of calc tr ts ` set cs
   \<and> (\<forall>c \<in> set (clusterCommits calc tr ts cs g).
         commits c = filter (\<lambda>x. roundedPosition_of calc tr ts x = position c) cs)
   \<and> (\<forall>x \<in> set cs. \<forall>y \<in> set cs.
         (\<exists>c \<in> set (clusterCommits calc tr ts cs g). x \<in> set (commits c) \<and> y \<in> set (commits c))
         = (roundedPosition_of calc tr ts x = roundedPosition_of calc tr ts y))
   \<and> (\<forall>x \<in> set cs. \<forall>q.
         calc (date x) (range_start tr) (range_end tr) ts = Fin q \<longrightarrow>
         (\<exists>n :: int. of_int n - 1 / 2 \<le> q \<and> q < of_int n + 1 / 2
            \<and> roundedPosition_of calc tr ts x = Fin (of_int n)
            \<and> (\<exists>c \<in> set (clusterCommits calc tr ts cs g).
                   x \<in> set (commits c) \<and> position c = Fin (of_int n))))
   \<and> (\<forall>x \<in> set cs. \<forall>v.
         calc (date x) (range_start tr) (range_end tr) ts = v \<and> (v = NaN \<or> v = PosInf \<or> v = NegInf) \<longrightarrow>
         roundedPosition_of calc tr ts x = v
         \<and> (\<exists>c \<in> set (clusterCommits calc tr ts cs g). x \<in> set (commits c) \<and> position c = v))"
proof (intro conjI ballI allI impI)
  show "distinct (map position (clusterCommits calc tr ts cs g))"
    by (rule clusterCommits_positions_distinct)
  show "set (map position (clusterCommits calc tr ts cs g)) = roundedPosition_of calc tr ts ` set cs"
    by (rule clusterCommits_positions_set)
next
  fix c assume "c \<in> set (clusterCommits calc tr ts cs g)"
  then show "commits c = filter (\<lambda>x. roundedPosition_of calc tr ts x = position c) cs"
    by (rule clusterCommits_member)
next
  fix x y assume x: "x \<in> set cs" and y: "y \<in> set cs"
  let ?r = "roundedPosition_of calc tr ts"
  show "(\<exists>c \<in> set (clusterCommits calc tr ts cs g). x \<in> set (commits c) \<and> y \<in> set (commits c))
         = (?r x = ?r y)"
  proof
    assume "\<exists>c \<in> set (clusterCommits calc tr ts cs g). x \<in> set (commits c) \<and> y \<in> set (commits c)"
    then obtain c where c: "c \<in> set (clusterCommits calc tr ts cs g)"
      and m: "x \<in> set (commits c)" "y \<in> set (commits c)" by blast
    from m show "?r x = ?r y" by (simp add: clusterCommits_member [OF c])
  next
    assume eq: "?r x = ?r y"
    from cluster_of_commit [OF x, of calc tr ts g] obtain c where
      c: "c \<in> set (clusterCommits calc tr ts cs g)" and p: "position c = ?r x" by blast
    have "x \<in> set (commits c) \<and> y \<in> set (commits c)"
      using x y eq p by (simp add: clusterCommits_member [OF c])
    with c show "\<exists>c \<in> set (clusterCommits calc tr ts cs g). x \<in> set (commits c) \<and> y \<in> set (commits c)"
      by blast
  qed
next
  fix x q assume x: "x \<in> set cs"
    and q: "calc (date x) (range_start tr) (range_end tr) ts = Fin q"
  let ?n = "\<lfloor>q + 1 / 2\<rfloor>"
  have r: "roundedPosition_of calc tr ts x = Fin (of_int ?n)"
    by (simp add: roundedPosition_of_def q)
  from cluster_of_commit [OF x, of calc tr ts g] r
  have "\<exists>c \<in> set (clusterCommits calc tr ts cs g). x \<in> set (commits c) \<and> position c = Fin (of_int ?n)"
    by simp
  then show "\<exists>n :: int. of_int n - 1 / 2 \<le> q \<and> q < of_int n + 1 / 2
            \<and> roundedPosition_of calc tr ts x = Fin (of_int n)
            \<and> (\<exists>c \<in> set (clusterCommits calc tr ts cs g).
                   x \<in> set (commits c) \<and> position c = Fin (of_int n))"
    using r Math_round_nearest [of q] by (intro exI [of _ ?n]) simp
next
  fix x v assume x: "x \<in> set cs"
    and v: "calc (date x) (range_start tr) (range_end tr) ts = v \<and> (v = NaN \<or> v = PosInf \<or> v = NegInf)"
  then show "roundedPosition_of calc tr ts x = v"
    using Math_round_not_finite [of v] by (simp add: roundedPosition_of_def)
  then show "\<exists>c \<in> set (clusterCommits calc tr ts cs g). x \<in> set (commits c) \<and> position c = v"
    using cluster_of_commit [OF x, of calc tr ts g] by simp
qed

theorem clusterCommits_buckets_witness:
  "map position
     (clusterCommits calculateCommitPosition_spec range_0_1000 Day commits_fractional ''row'')
     = [Fin 7, Fin 8]
   \<and> calculateCommitPosition_spec (date (commit_at ''a'' 72 None)) (range_start range_0_1000)
       (range_end range_0_1000) Day = Fin (36 / 5)
   \<and> calculateCommitPosition_spec (date (commit_at ''c'' 75 None)) (range_start range_0_1000)
       (range_end range_0_1000) Day = Fin (15 / 2)
   \<and> roundedPosition_of calculateCommitPosition_spec range_0_1000 Day (commit_at ''a'' 72 None) = Fin 7
   \<and> roundedPosition_of calculateCommitPosition_spec range_0_1000 Day (commit_at ''c'' 75 None) = Fin 8
   \<and> (\<exists>c \<in> set (clusterCommits calculateCommitPosition_spec range_0_1000 Day commits_fractional ''row'').
         commit_at ''a'' 72 None \<in> set (commits c) \<and> commit_at ''b'' 74 None \<in> set (commits c))
   \<and> \<not> (\<exists>c \<in> set (clusterCommits calculateCommitPosition_spec range_0_1000 Day commits_fractional ''row'').
         commit_at ''b'' 74 None \<in> set (commits c) \<and> commit_at ''c'' 75 None \<in> set (commits c))"
proof -
  let ?cl = "clusterCommits calculateCommitPosition_spec range_0_1000 Day commits_fractional ''row''"
  let ?r = "roundedPosition_of calculateCommitPosition_spec range_0_1000 Day"
  note b = clusterCommits_buckets
             [of calculateCommitPosition_spec range_0_1000 Day commits_fractional "''row''"]
  note b4 = b [THEN conjunct2, THEN conjunct2, THEN conjunct2, THEN conjunct1]
  note b5 = b [THEN conjunct2, THEN conjunct2, THEN conjunct2, THEN conjunct2, THEN conjunct1]
  have p: "map position ?cl = [Fin 7, Fin 8]" by (simp add: clusters_fractional)
  have sa: "commit_at ''a'' 72 None \<in> set commits_fractional"
    and sb: "commit_at ''b'' 74 None \<in> set commits_fractional"
    and sc: "commit_at ''c'' 75 None \<in> set commits_fractional"
    by (simp_all add: commits_fractional_def)
  from b5 [rule_format, OF sa positions_fractional(1)]
  obtain n :: int where n: "of_int n - 1 / 2 \<le> (36 / 5 :: rat)" "(36 / 5 :: rat) < of_int n + 1 / 2"
    and rn: "?r (commit_at ''a'' 72 None) = Fin (of_int n)"
    by blast
  have "n = 7"
  proof -
    have "(of_int n :: rat) < of_int 8" using n(1) by simp
    moreover have "(of_int 6 :: rat) < of_int n" using n(2) by simp
    ultimately have "n < 8" "6 < n" by (simp_all only: of_int_less_iff)
    then show ?thesis by simp
  qed
  then have ra: "?r (commit_at ''a'' 72 None) = Fin 7" using rn by simp
  have rb: "?r (commit_at ''b'' 74 None) = Fin 7" by (simp add: fractional_eval)
  have rc: "?r (commit_at ''c'' 75 None) = Fin 8" by (simp add: fractional_eval)
  have y: "\<exists>c \<in> set ?cl. commit_at ''a'' 72 None \<in> set (commits c) \<and> commit_at ''b'' 74 None \<in> set (commits c)"
    using b4 [rule_format, OF sa sb] by (simp only: ra rb simp_thms)
  have "?r (commit_at ''b'' 74 None) \<noteq> ?r (commit_at ''c'' 75 None)" by (simp only: rb rc) simp
  then have n': "\<not> (\<exists>c \<in> set ?cl. commit_at ''b'' 74 None \<in> set (commits c) \<and> commit_at ''c'' 75 None \<in> set (commits c))"
    using b4 [rule_format, OF sb sc] by (simp only: simp_thms)
  show ?thesis using p positions_fractional(1) positions_fractional(3) ra rc y n' by (intro conjI)
qed

lemma array_index_of_nat:
  "n < 4294967295 \<Longrightarrow> array_index_of_number (Fin (of_nat n)) = Some n"
  by simp

lemma sorted_index_keys:
  assumes k: "\<forall>e \<in> set es. \<exists>n. fst e = Fin (of_nat n) \<and> f e = n"
    and s: "sorted (map f es)" and d: "distinct (map fst es)"
  shows "sorted_wrt js_less (map fst es)"
proof -
  have "js_less (fst (es ! i)) (fst (es ! j))" if "i < j" "j < length es" for i j
  proof -
    from that k obtain a b where a: "fst (es ! i) = Fin (of_nat a)" "f (es ! i) = a"
      and b: "fst (es ! j) = Fin (of_nat b)" "f (es ! j) = b"
      by (metis nth_mem order_less_trans)
    have "f (es ! i) \<le> f (es ! j)"
      using s that by (simp add: sorted_iff_nth_mono)
    moreover have "fst (es ! i) \<noteq> fst (es ! j)"
      using d that by (simp add: distinct_conv_nth)
    ultimately have "a < b" using a b by (cases "a = b") auto
    then show ?thesis using a b by simp
  qed
  then show ?thesis by (simp add: sorted_wrt_iff_nth_less)
qed

text \<open>
  C8, order of the clusters. When every rounded position is an integer from 0 to 2^32 - 2
  (which holds on the grid from 0 to 100), the cluster list is in strictly ascending order
  of position.
\<close>

theorem clusterCommits_sorted:
  assumes "\<forall>c \<in> set cs. \<exists>n < 4294967295. roundedPosition_of calc tr ts c = Fin (of_nat n)"
  shows "sorted_wrt js_less (map position (clusterCommits calc tr ts cs g))"
proof -
  let ?m = "build_positionMap calc tr ts cs"
  have keys: "\<exists>n < 4294967295. fst e = Fin (of_nat n)" if "e \<in> set ?m" for e
  proof -
    have "fst e \<in> set (map fst ?m)" using that by simp
    then show ?thesis using assms by (auto simp only: build_positionMap_keys)
  qed
  have idx: "array_index_of_number (fst e) \<noteq> None" if "e \<in> set ?m" for e
    using keys [OF that] array_index_of_nat by auto
  have f1: "filter (\<lambda>e. array_index_of_number (fst e) \<noteq> None) ?m = ?m"
    using idx by (simp add: filter_id_conv)
  have f2: "filter (\<lambda>e. array_index_of_number (fst e) = None) ?m = []"
    using idx by (simp add: filter_empty_conv)
  let ?es = "sort_key (index_of_entry array_index_of_number) ?m"
  have E: "Object_entries array_index_of_number ?m = ?es"
    by (simp only: Object_entries_def f1 f2 append_Nil2)
  have "\<forall>e \<in> set ?es. \<exists>n. fst e = Fin (of_nat n) \<and> index_of_entry array_index_of_number e = n"
  proof
    fix e assume "e \<in> set ?es"
    then have "e \<in> set ?m" by simp
    from keys [OF this] obtain n where n: "n < 4294967295" "fst e = Fin (of_nat n)" by blast
    then have "index_of_entry array_index_of_number e = n"
      by (simp only: index_of_entry_def array_index_of_nat option.case)
    with n show "\<exists>n. fst e = Fin (of_nat n) \<and> index_of_entry array_index_of_number e = n" by blast
  qed
  moreover have "sorted (map (index_of_entry array_index_of_number) ?es)"
    by (rule sorted_sort_key)
  moreover have "distinct (map fst ?es)"
    using Object_entries_distinct [OF build_positionMap_distinct, of array_index_of_number calc tr ts cs]
    by (simp only: E)
  ultimately have "sorted_wrt js_less (map fst ?es)" by (rule sorted_index_keys)
  then show ?thesis by (simp only: clusterCommits_position E)
qed

theorem clusterCommits_sorted_witness:
  "map (roundedPosition_of calculateCommitPosition_spec range_0_100 Day) commits_7_3_7
     = [Fin (of_nat 7), Fin (of_nat 3), Fin (of_nat 7)]
   \<and> sorted_wrt js_less
        (map position (clusterCommits calculateCommitPosition_spec range_0_100 Day commits_7_3_7 ''row''))
   \<and> map position (clusterCommits calculateCommitPosition_spec range_0_100 Day commits_7_3_7 ''row'')
        = [Fin 3, Fin 7]"
proof -
  have r: "map (roundedPosition_of calculateCommitPosition_spec range_0_100 Day) commits_7_3_7
     = [Fin (of_nat 7), Fin (of_nat 3), Fin (of_nat 7)]"
    by (simp add: rounded_7_3_7)
  have "\<exists>n < 4294967295. roundedPosition_of calculateCommitPosition_spec range_0_100 Day c = Fin (of_nat n)"
    if "c \<in> set commits_7_3_7" for c
  proof -
    have "roundedPosition_of calculateCommitPosition_spec range_0_100 Day c
            \<in> set (map (roundedPosition_of calculateCommitPosition_spec range_0_100 Day) commits_7_3_7)"
      using that by simp
    then have "roundedPosition_of calculateCommitPosition_spec range_0_100 Day c = Fin (of_nat 7)
       \<or> roundedPosition_of calculateCommitPosition_spec range_0_100 Day c = Fin (of_nat 3)"
      by (simp only: r) auto
    then show ?thesis
    proof
      assume "roundedPosition_of calculateCommitPosition_spec range_0_100 Day c = Fin (of_nat 7)"
      then show ?thesis by (intro exI [of _ 7]) simp
    next
      assume "roundedPosition_of calculateCommitPosition_spec range_0_100 Day c = Fin (of_nat 3)"
      then show ?thesis by (intro exI [of _ 3]) simp
    qed
  qed
  then have h: "\<forall>c \<in> set commits_7_3_7. \<exists>n < 4294967295.
       roundedPosition_of calculateCommitPosition_spec range_0_100 Day c = Fin (of_nat n)"
    by blast
  show ?thesis
    using r clusterCommits_sorted [OF h, of "''row''"] by (simp add: clusters_7_3_7)
qed

theorem clusterCommits_sorted_counterexample:
  "map (roundedPosition_of calculateCommitPosition_spec range_0_100 Day) commits_huge
     = [Fin (of_nat 4294967296), Fin (of_nat 4294967295)]
   \<and> \<not> sorted_wrt js_less
        (map position (clusterCommits calculateCommitPosition_spec range_0_100 Day commits_huge ''row''))"
  by (simp add: commits_huge_def cluster_eval)

section \<open>The call on the component state\<close>

lemma buckets_of_keys: "map fst (buckets_of h pm) = map fst pm"
  by (simp add: buckets_of_def comp_def)

lemma map_of_buckets_of: "map_of (buckets_of h pm) k = map_option (\<lambda>a. h ! a) (map_of pm k)"
  by (induction pm) (auto simp: buckets_of_def)

lemma buckets_of_created:
  assumes "map_of pm k = None" "\<forall>a \<in> snd ` set pm. a < length h"
  shows "buckets_of (h @ [[]]) (AList.update k (length h) pm) = AList.update k [] (buckets_of h pm)"
  using assms
  by (induction pm) (auto simp: buckets_of_def nth_append split: if_splits)

lemma buckets_of_other:
  "a \<notin> snd ` set pm \<Longrightarrow> buckets_of (h[a := x]) pm = buckets_of h pm"
  by (induction pm) (auto simp: buckets_of_def)

lemma buckets_of_pushed:
  assumes "map_of pm k = Some a" "distinct (map snd pm)" "\<forall>a' \<in> snd ` set pm. a' < length h"
  shows "buckets_of (h[a := h ! a @ [c]]) pm = AList.update k (h ! a @ [c]) (buckets_of h pm)"
  using assms
proof (induction pm)
  case Nil
  then show ?case by simp
next
  case (Cons e pm)
  show ?case
  proof (cases "fst e = k")
    case True
    then have a: "snd e = a" using Cons.prems(1) by (cases e) simp
    then have "a \<notin> snd ` set pm" using Cons.prems(2) by auto
    then have "buckets_of (h[a := h ! a @ [c]]) pm = buckets_of h pm" by (rule buckets_of_other)
    moreover have "a < length h" using a Cons.prems(3) by simp
    ultimately show ?thesis using True a by (simp add: buckets_of_def)
  next
    case False
    then have m: "map_of pm k = Some a" using Cons.prems(1) by (cases e) simp
    then have "a \<in> snd ` set pm" by (metis map_of_SomeD image_eqI snd_conv)
    then have "snd e \<noteq> a" using Cons.prems(2) by auto
    moreover have "buckets_of (h[a := h ! a @ [c]]) pm = AList.update k (h ! a @ [c]) (buckets_of h pm)"
      using Cons.IH [OF m] Cons.prems(2,3) by simp
    ultimately show ?thesis using False by (simp add: buckets_of_def)
  qed
qed

lemma forEach_body_step:
  assumes d: "distinct (map snd pm)"
    and b: "\<forall>a \<in> snd ` set pm. n0 \<le> a \<and> a < length (arrays s)"
    and i: "i < length (arrays s ! ref)"
    and n: "n0 \<le> length (arrays s)"
  shows "buckets_of (arrays (fst (forEach_body calc ref i (s, pm)))) (snd (forEach_body calc ref i (s, pm)))
           = cluster_step calc (timeRange s) (timeScale s) (arrays s ! ref ! i)
               (buckets_of (arrays s) pm)
         \<and> distinct (map snd (snd (forEach_body calc ref i (s, pm))))
         \<and> (\<forall>a \<in> snd ` set (snd (forEach_body calc ref i (s, pm))).
               n0 \<le> a \<and> a < length (arrays (fst (forEach_body calc ref i (s, pm)))))
         \<and> take n0 (arrays (fst (forEach_body calc ref i (s, pm)))) = take n0 (arrays s)
         \<and> n0 \<le> length (arrays (fst (forEach_body calc ref i (s, pm))))
         \<and> (fst (forEach_body calc ref i (s, pm)))\<lparr>arrays := arrays s\<rparr> = s"
proof -
  let ?c = "arrays s ! ref ! i"
  let ?k = "roundedPosition_of calc (timeRange s) (timeScale s) ?c"
  let ?h = "arrays s"
  let ?m = "buckets_of ?h pm"
  have body: "forEach_body calc ref i (s, pm) =
      (push_commit (fst (create_bucket s pm ?k)) (snd (create_bucket s pm ?k)) ?k ?c,
       snd (create_bucket s pm ?k))"
    using i by (simp add: forEach_body_def Let_def roundedPosition_of_def)
  have lt: "\<forall>a \<in> snd ` set pm. a < length ?h" using b by blast
  show ?thesis
  proof (cases "map_of pm ?k")
    case None
    let ?h1 = "?h @ [[]]"
    let ?pm1 = "AList.update ?k (length ?h) pm"
    let ?h2 = "?h1[length ?h := ?h1 ! length ?h @ [?c]]"
    have cb: "create_bucket s pm ?k = (s\<lparr>arrays := ?h1\<rparr>, ?pm1)"
      using None by (simp add: create_bucket_def)
    have m1: "map_of ?pm1 ?k = Some (length ?h)" by (simp add: update_conv')
    have fresh: "length ?h \<notin> snd ` set pm" using lt by auto
    have keys: "?k \<notin> fst ` set pm" using None by (simp add: map_of_eq_None_iff)
    then have pm1: "?pm1 = pm @ [(?k, length ?h)]"
      by (induction pm) auto
    have d1: "distinct (map snd ?pm1)" using d fresh by (simp add: pm1)
    have lt1: "\<forall>a \<in> snd ` set ?pm1. a < length ?h1" using lt by (auto simp: pm1)
    have st1: "fst (forEach_body calc ref i (s, pm)) = s\<lparr>arrays := ?h2\<rparr>"
      by (simp add: body cb push_commit_def m1)
    have st2: "snd (forEach_body calc ref i (s, pm)) = ?pm1"
      by (simp add: body cb)
    have e1: "buckets_of ?h1 ?pm1 = ensure_bucket ?m ?k"
      using buckets_of_created [OF None lt] None
      by (simp add: ensure_bucket_def map_of_buckets_of)
    have l1: "map_of (ensure_bucket ?m ?k) ?k = Some (?h1 ! length ?h)"
      by (simp add: ensure_bucket_map_of map_of_buckets_of None)
    have "buckets_of ?h2 ?pm1 = AList.update ?k (?h1 ! length ?h @ [?c]) (buckets_of ?h1 ?pm1)"
      using m1 d1 lt1 by (rule buckets_of_pushed)
    also have "\<dots> = cluster_step calc (timeRange s) (timeScale s) ?c ?m"
      using l1 by (simp add: cluster_step_def Let_def push_bucket_def e1)
    finally have sim: "buckets_of ?h2 ?pm1 = cluster_step calc (timeRange s) (timeScale s) ?c ?m" .
    have bnd: "\<forall>a \<in> snd ` set ?pm1. n0 \<le> a \<and> a < length ?h2"
      using b n by (auto simp: pm1)
    have tk: "take n0 ?h2 = take n0 ?h" using n by simp
    have ln: "n0 \<le> length ?h2" using n by simp
    show ?thesis
      using sim d1 bnd tk ln by (simp only: st1 st2) simp
  next
    case (Some a)
    let ?h2 = "?h[a := ?h ! a @ [?c]]"
    have cb: "create_bucket s pm ?k = (s, pm)"
      using Some by (simp add: create_bucket_def)
    have st1: "fst (forEach_body calc ref i (s, pm)) = s\<lparr>arrays := ?h2\<rparr>"
      by (simp add: body cb push_commit_def Some)
    have st2: "snd (forEach_body calc ref i (s, pm)) = pm"
      by (simp add: body cb)
    have a: "a \<in> snd ` set pm" using Some by (metis map_of_SomeD image_eqI snd_conv)
    have l: "map_of ?m ?k = Some (?h ! a)" by (simp add: map_of_buckets_of Some)
    then have e: "ensure_bucket ?m ?k = ?m" by (simp add: ensure_bucket_def)
    have "buckets_of ?h2 pm = AList.update ?k (?h ! a @ [?c]) ?m"
      using Some d lt by (rule buckets_of_pushed)
    also have "\<dots> = cluster_step calc (timeRange s) (timeScale s) ?c ?m"
      using l by (simp add: cluster_step_def Let_def push_bucket_def e)
    finally have sim: "buckets_of ?h2 pm = cluster_step calc (timeRange s) (timeScale s) ?c ?m" .
    have bnd: "\<forall>a' \<in> snd ` set pm. n0 \<le> a' \<and> a' < length ?h2" using b by simp
    have "n0 \<le> a" using a b by blast
    then have tk: "take n0 ?h2 = take n0 ?h" by simp
    have ln: "n0 \<le> length ?h2" using n by simp
    show ?thesis
      using sim d bnd tk ln by (simp only: st1 st2) simp
  qed
qed

lemma state_fields_same:
  assumes "s'\<lparr>arrays := h\<rparr> = s"
  shows "timeRange s' = timeRange s \<and> timeScale s' = timeScale s
         \<and> hoveredCommit s' = hoveredCommit s \<and> openClusterDialog s' = openClusterDialog s
         \<and> selectedCluster s' = selectedCluster s"
  using arg_cong [OF assms, of timeRange] arg_cong [OF assms, of timeScale]
    arg_cong [OF assms, of hoveredCommit] arg_cong [OF assms, of openClusterDialog]
    arg_cong [OF assms, of selectedCluster]
  by simp

lemma forEach_loop:
  assumes r: "ref < length (arrays s0)"
  shows "j \<le> length (arrays s0 ! ref) \<Longrightarrow>
     buckets_of (arrays (fst (fold (forEach_body calc ref) [0..<j] (s0, []))))
         (snd (fold (forEach_body calc ref) [0..<j] (s0, [])))
       = build_positionMap calc (timeRange s0) (timeScale s0) (take j (arrays s0 ! ref))
     \<and> distinct (map snd (snd (fold (forEach_body calc ref) [0..<j] (s0, []))))
     \<and> (\<forall>a \<in> snd ` set (snd (fold (forEach_body calc ref) [0..<j] (s0, []))).
           length (arrays s0) \<le> a
           \<and> a < length (arrays (fst (fold (forEach_body calc ref) [0..<j] (s0, [])))))
     \<and> take (length (arrays s0)) (arrays (fst (fold (forEach_body calc ref) [0..<j] (s0, []))))
         = arrays s0
     \<and> length (arrays s0) \<le> length (arrays (fst (fold (forEach_body calc ref) [0..<j] (s0, []))))
     \<and> (fst (fold (forEach_body calc ref) [0..<j] (s0, [])))\<lparr>arrays := arrays s0\<rparr> = s0"
proof (induction j)
  case 0
  show ?case by (simp add: buckets_of_def build_positionMap_def)
next
  case (Suc j)
  let ?n0 = "length (arrays s0)"
  let ?cs = "arrays s0 ! ref"
  obtain s pm where st: "fold (forEach_body calc ref) [0..<j] (s0, []) = (s, pm)"
    by (cases "fold (forEach_body calc ref) [0..<j] (s0, [])") blast
  have j: "j < length ?cs" using Suc.prems by simp
  then have "j \<le> length ?cs" by simp
  note ih = Suc.IH [OF this, unfolded st fst_conv snd_conv]
  have sim: "buckets_of (arrays s) pm
               = build_positionMap calc (timeRange s0) (timeScale s0) (take j ?cs)"
    using ih by blast
  have d: "distinct (map snd pm)" using ih by blast
  have b: "\<forall>a \<in> snd ` set pm. ?n0 \<le> a \<and> a < length (arrays s)" using ih by blast
  have tk: "take ?n0 (arrays s) = arrays s0" using ih by blast
  have ln: "?n0 \<le> length (arrays s)" using ih by blast
  have fr: "s\<lparr>arrays := arrays s0\<rparr> = s0" using ih by blast
  have "take ?n0 (arrays s) ! ref = arrays s ! ref" using r by simp
  then have same: "arrays s ! ref = ?cs" by (simp only: tk)
  have tr: "timeRange s = timeRange s0" and ts: "timeScale s = timeScale s0"
    using state_fields_same [OF fr] by simp_all
  have i: "j < length (arrays s ! ref)" using j by (simp only: same)
  let ?st' = "forEach_body calc ref j (s, pm)"
  have next_state: "fold (forEach_body calc ref) [0..<Suc j] (s0, []) = ?st'"
    by (simp add: st)
  note step = forEach_body_step [OF d b i ln, of calc]
  have sim': "buckets_of (arrays (fst ?st')) (snd ?st')
                = build_positionMap calc (timeRange s0) (timeScale s0) (take (Suc j) ?cs)"
  proof -
    have "buckets_of (arrays (fst ?st')) (snd ?st')
            = cluster_step calc (timeRange s) (timeScale s) (arrays s ! ref ! j)
                (buckets_of (arrays s) pm)"
      using step by blast
    also have "\<dots> = cluster_step calc (timeRange s0) (timeScale s0) (?cs ! j)
                (build_positionMap calc (timeRange s0) (timeScale s0) (take j ?cs))"
      by (simp only: tr ts same sim)
    also have "\<dots> = build_positionMap calc (timeRange s0) (timeScale s0) (take j ?cs @ [?cs ! j])"
      by (simp only: build_positionMap_snoc)
    also have "take j ?cs @ [?cs ! j] = take (Suc j) ?cs"
      using j by (simp add: take_Suc_conv_app_nth)
    finally show ?thesis .
  qed
  have d': "distinct (map snd (snd ?st'))" using step by blast
  have b': "\<forall>a \<in> snd ` set (snd ?st'). ?n0 \<le> a \<and> a < length (arrays (fst ?st'))"
    using step by blast
  have "take ?n0 (arrays (fst ?st')) = take ?n0 (arrays s)" using step by blast
  then have tk': "take ?n0 (arrays (fst ?st')) = arrays s0" by (simp only: tk)
  have ln': "?n0 \<le> length (arrays (fst ?st'))" using step by blast
  have "(fst ?st')\<lparr>arrays := arrays s\<rparr> = s" using step by blast
  then have "((fst ?st')\<lparr>arrays := arrays s\<rparr>)\<lparr>arrays := arrays s0\<rparr> = s\<lparr>arrays := arrays s0\<rparr>"
    by simp
  then have fr': "(fst ?st')\<lparr>arrays := arrays s0\<rparr> = s0" by (simp add: fr)
  show ?case
    unfolding next_state using sim' d' b' tk' ln' fr' by (intro conjI)
qed

lemma insort_key_map_values:
  "insort_key f (g x) (map g xs) = map g (insort_key (\<lambda>e. f (g e)) x xs)"
  by (induction xs) simp_all

lemma sort_key_map_values:
  "sort_key f (map g xs) = map g (sort_key (\<lambda>e. f (g e)) xs)"
  by (induction xs) (simp_all add: insort_key_map_values)

lemma Object_entries_buckets_of:
  "Object_entries idx (buckets_of h pm) = buckets_of h (Object_entries idx pm)"
proof -
  have "(\<lambda>e :: jsnum \<times> nat. index_of_entry idx (fst e, h ! snd e)) = index_of_entry idx"
    by (rule ext) (simp add: index_of_entry_def)
  then have "sort_key (index_of_entry idx) (map (\<lambda>e. (fst e, h ! snd e)) xs)
          = map (\<lambda>e. (fst e, h ! snd e)) (sort_key (index_of_entry idx) xs)"
    for xs :: "(jsnum \<times> nat) list"
    by (simp only: sort_key_map_values)
  then show ?thesis
    by (simp add: Object_entries_def buckets_of_def filter_map comp_def)
qed

lemma clusters_in_buckets_of:
  "clusters_in s (map (\<lambda>(pos, a). \<lparr>position_of = pos, commits_at = a\<rparr>) es)
     = map (\<lambda>(pos, groupedCommits). \<lparr>position = pos, commits = groupedCommits\<rparr>)
         (buckets_of (arrays s) es)"
  by (simp add: clusters_in_def buckets_of_def comp_def case_prod_beta)

lemma clusterCommits_on_result:
  assumes r: "ref < length (arrays s)"
  shows "clusters_in (snd (clusterCommits_on calc s ref g)) (fst (clusterCommits_on calc s ref g))
           = clusterCommits calc (timeRange s) (timeScale s) (arrays s ! ref) g
         \<and> take (length (arrays s)) (arrays (snd (clusterCommits_on calc s ref g))) = arrays s
         \<and> (snd (clusterCommits_on calc s ref g))\<lparr>arrays := arrays s\<rparr> = s"
proof -
  let ?st = "fold (forEach_body calc ref) [0..<length (arrays s ! ref)] (s, [])"
  note loop = forEach_loop [OF r, of "length (arrays s ! ref)" calc, OF order_refl]
  have res: "clusterCommits_on calc s ref g =
      (map (\<lambda>(pos, a). \<lparr>position_of = pos, commits_at = a\<rparr>)
         (Object_entries array_index_of_number (snd ?st)), fst ?st)"
    by (simp add: clusterCommits_on_def Let_def)
  have b: "buckets_of (arrays (fst ?st)) (snd ?st)
             = build_positionMap calc (timeRange s) (timeScale s) (arrays s ! ref)"
    using loop by simp
  have "clusters_in (fst ?st)
          (map (\<lambda>(pos, a). \<lparr>position_of = pos, commits_at = a\<rparr>)
             (Object_entries array_index_of_number (snd ?st)))
        = map (\<lambda>(pos, groupedCommits). \<lparr>position = pos, commits = groupedCommits\<rparr>)
            (Object_entries array_index_of_number (buckets_of (arrays (fst ?st)) (snd ?st)))"
    by (simp only: clusters_in_buckets_of Object_entries_buckets_of)
  also have "\<dots> = clusterCommits calc (timeRange s) (timeScale s) (arrays s ! ref) g"
    by (simp only: b clusterCommits_def)
  finally have "clusters_in (snd (clusterCommits_on calc s ref g)) (fst (clusterCommits_on calc s ref g))
           = clusterCommits calc (timeRange s) (timeScale s) (arrays s ! ref) g"
    by (simp only: res fst_conv snd_conv)
  moreover have "take (length (arrays s)) (arrays (fst ?st)) = arrays s"
    using loop by blast
  then have "take (length (arrays s)) (arrays (snd (clusterCommits_on calc s ref g))) = arrays s"
    by (simp only: res snd_conv)
  moreover have "(fst ?st)\<lparr>arrays := arrays s\<rparr> = s"
    using loop by blast
  then have "(snd (clusterCommits_on calc s ref g))\<lparr>arrays := arrays s\<rparr> = s"
    by (simp only: res snd_conv)
  ultimately show ?thesis by (intro conjI)
qed

lemma run_state_one:
  "clusterCommits calculateCommitPosition_spec (timeRange state_one) (timeScale state_one)
     (arrays state_one ! 0) ''row''
   = [\<lparr>position = Fin 3, commits = [commit_at ''b'' 3 None]\<rparr>,
      \<lparr>position = Fin 7, commits = [commit_at ''a'' 7 None, commit_at ''c'' 7 None]\<rparr>]"
  by (simp add: state_one_def clusters_7_3_7)

text \<open>
  C7, determinism. Take two states and, in each, the address of an array of commits, such
  that the two arrays hold the same commits and the states have the same time range and
  time scale; the states may differ in every other state variable, in the other arrays
  and in the addresses, and the group names passed may differ. Then the two calls return
  the same clusters (same positions, same members in the same order), namely those of
  \<open>clusterCommits\<close> above. A call leaves every array that existed before it as it was, the
  array it was given included, and changes no state variable; the arrays it writes are
  the ones it creates. A second call on the state the first one leaves returns the same
  clusters again. The position function is taken to be a function of its four arguments.
\<close>

theorem clusterCommits_deterministic:
  assumes r1: "ref1 < length (arrays s1)" and r2: "ref2 < length (arrays s2)"
    and cs: "arrays s1 ! ref1 = arrays s2 ! ref2"
    and tr: "timeRange s1 = timeRange s2" and ts: "timeScale s1 = timeScale s2"
  shows "clusters_in (snd (clusterCommits_on calc s1 ref1 g)) (fst (clusterCommits_on calc s1 ref1 g))
           = clusters_in (snd (clusterCommits_on calc s2 ref2 g')) (fst (clusterCommits_on calc s2 ref2 g'))
         \<and> clusters_in (snd (clusterCommits_on calc s1 ref1 g)) (fst (clusterCommits_on calc s1 ref1 g))
           = clusterCommits calc (timeRange s1) (timeScale s1) (arrays s1 ! ref1) g
         \<and> take (length (arrays s1)) (arrays (snd (clusterCommits_on calc s1 ref1 g))) = arrays s1
         \<and> timeRange (snd (clusterCommits_on calc s1 ref1 g)) = timeRange s1
         \<and> timeScale (snd (clusterCommits_on calc s1 ref1 g)) = timeScale s1
         \<and> hoveredCommit (snd (clusterCommits_on calc s1 ref1 g)) = hoveredCommit s1
         \<and> openClusterDialog (snd (clusterCommits_on calc s1 ref1 g)) = openClusterDialog s1
         \<and> selectedCluster (snd (clusterCommits_on calc s1 ref1 g)) = selectedCluster s1
         \<and> clusters_in (snd (clusterCommits_on calc (snd (clusterCommits_on calc s1 ref1 g)) ref1 g'))
              (fst (clusterCommits_on calc (snd (clusterCommits_on calc s1 ref1 g)) ref1 g'))
           = clusters_in (snd (clusterCommits_on calc s1 ref1 g)) (fst (clusterCommits_on calc s1 ref1 g))"
proof -
  let ?s' = "snd (clusterCommits_on calc s1 ref1 g)"
  note a = clusterCommits_on_result [OF r1, of calc g]
  note b = clusterCommits_on_result [OF r2, of calc g']
  have pure: "clusterCommits calc (timeRange s1) (timeScale s1) (arrays s1 ! ref1) g
        = clusterCommits calc (timeRange s2) (timeScale s2) (arrays s2 ! ref2) g'"
    by (simp add: cs tr ts clusterCommits_def)
  have e1: "clusters_in ?s' (fst (clusterCommits_on calc s1 ref1 g))
        = clusterCommits calc (timeRange s1) (timeScale s1) (arrays s1 ! ref1) g"
    using a by blast
  have e2: "clusters_in (snd (clusterCommits_on calc s2 ref2 g')) (fst (clusterCommits_on calc s2 ref2 g'))
        = clusterCommits calc (timeRange s2) (timeScale s2) (arrays s2 ! ref2) g'"
    using b by blast
  have tk: "take (length (arrays s1)) (arrays ?s') = arrays s1" using a by blast
  have fr: "?s'\<lparr>arrays := arrays s1\<rparr> = s1" using a by blast
  note f = state_fields_same [OF fr]
  have "length (take (length (arrays s1)) (arrays ?s')) = length (arrays s1)" by (simp only: tk)
  then have ln: "length (arrays s1) \<le> length (arrays ?s')" by simp
  then have r': "ref1 < length (arrays ?s')" using r1 by simp
  have "take (length (arrays s1)) (arrays ?s') ! ref1 = arrays ?s' ! ref1" using r1 by simp
  then have same: "arrays ?s' ! ref1 = arrays s1 ! ref1" by (simp only: tk)
  have "clusters_in (snd (clusterCommits_on calc ?s' ref1 g')) (fst (clusterCommits_on calc ?s' ref1 g'))
        = clusterCommits calc (timeRange ?s') (timeScale ?s') (arrays ?s' ! ref1) g'"
    using clusterCommits_on_result [OF r', of calc g'] by blast
  also have "\<dots> = clusterCommits calc (timeRange s1) (timeScale s1) (arrays s1 ! ref1) g"
    using f by (simp add: same clusterCommits_def)
  finally have again: "clusters_in (snd (clusterCommits_on calc ?s' ref1 g'))
          (fst (clusterCommits_on calc ?s' ref1 g'))
        = clusters_in ?s' (fst (clusterCommits_on calc s1 ref1 g))"
    by (simp only: e1)
  have first: "clusters_in ?s' (fst (clusterCommits_on calc s1 ref1 g))
           = clusters_in (snd (clusterCommits_on calc s2 ref2 g')) (fst (clusterCommits_on calc s2 ref2 g'))"
    by (simp only: e1 e2 pure)
  show ?thesis using first e1 tk f again by (intro conjI) blast+
qed

theorem clusterCommits_deterministic_witness:
  "0 < length (arrays state_one) \<and> 2 < length (arrays state_two)
   \<and> arrays state_one ! 0 = arrays state_two ! 2
   \<and> timeRange state_one = timeRange state_two \<and> timeScale state_one = timeScale state_two
   \<and> hoveredCommit state_one \<noteq> hoveredCommit state_two
   \<and> arrays state_one \<noteq> arrays state_two
   \<and> clusters_in (snd (clusterCommits_on calculateCommitPosition_spec state_one 0 ''row''))
        (fst (clusterCommits_on calculateCommitPosition_spec state_one 0 ''row''))
      = [\<lparr>position = Fin 3, commits = [commit_at ''b'' 3 None]\<rparr>,
         \<lparr>position = Fin 7, commits = [commit_at ''a'' 7 None, commit_at ''c'' 7 None]\<rparr>]
   \<and> clusters_in (snd (clusterCommits_on calculateCommitPosition_spec state_two 2 ''other''))
        (fst (clusterCommits_on calculateCommitPosition_spec state_two 2 ''other''))
      = [\<lparr>position = Fin 3, commits = [commit_at ''b'' 3 None]\<rparr>,
         \<lparr>position = Fin 7, commits = [commit_at ''a'' 7 None, commit_at ''c'' 7 None]\<rparr>]
   \<and> take 1 (arrays (snd (clusterCommits_on calculateCommitPosition_spec state_one 0 ''row'')))
      = [commits_7_3_7]"
proof -
  have h1: "0 < length (arrays state_one)" by (simp add: state_one_def)
  have h2: "2 < length (arrays state_two)" by (simp add: state_two_def)
  have h3: "arrays state_one ! 0 = arrays state_two ! 2" by (simp add: state_one_def state_two_def)
  have h4: "timeRange state_one = timeRange state_two" by (simp add: state_one_def state_two_def)
  have h5: "timeScale state_one = timeScale state_two" by (simp add: state_one_def state_two_def)
  have d1: "hoveredCommit state_one \<noteq> hoveredCommit state_two"
    by (simp add: state_one_def state_two_def)
  have d2: "arrays state_one \<noteq> arrays state_two" by (simp add: state_one_def state_two_def)
  note t = clusterCommits_deterministic
             [OF h1 h2 h3 h4 h5, where calc = calculateCommitPosition_spec
                and g = "''row''" and g' = "''other''"]
  have e1: "clusters_in (snd (clusterCommits_on calculateCommitPosition_spec state_one 0 ''row''))
        (fst (clusterCommits_on calculateCommitPosition_spec state_one 0 ''row''))
      = [\<lparr>position = Fin 3, commits = [commit_at ''b'' 3 None]\<rparr>,
         \<lparr>position = Fin 7, commits = [commit_at ''a'' 7 None, commit_at ''c'' 7 None]\<rparr>]"
    using t [THEN conjunct2, THEN conjunct1] by (simp only: run_state_one)
  have e2: "clusters_in (snd (clusterCommits_on calculateCommitPosition_spec state_two 2 ''other''))
        (fst (clusterCommits_on calculateCommitPosition_spec state_two 2 ''other''))
      = [\<lparr>position = Fin 3, commits = [commit_at ''b'' 3 None]\<rparr>,
         \<lparr>position = Fin 7, commits = [commit_at ''a'' 7 None, commit_at ''c'' 7 None]\<rparr>]"
    using t [THEN conjunct1] by (simp only: e1)
  have "length (arrays state_one) = 1" "arrays state_one = [commits_7_3_7]"
    by (simp_all add: state_one_def)
  then have e3: "take 1 (arrays (snd (clusterCommits_on calculateCommitPosition_spec state_one 0 ''row'')))
      = [commits_7_3_7]"
    using t [THEN conjunct2, THEN conjunct2, THEN conjunct1] by simp
  show ?thesis using h1 h2 h3 h4 h5 d1 d2 e1 e2 e3 by (intro conjI)
qed

section \<open>Properties of the category tally and of the dominant category\<close>

lemma takeWhile_neq_stop: "t \<notin> set xs \<Longrightarrow> takeWhile (\<lambda>x. x \<noteq> t) (xs @ t # ys) = xs"
  by (induction xs) auto

lemma takeWhile_neq_pass:
  "t \<notin> set xs \<Longrightarrow> takeWhile (\<lambda>x. x \<noteq> t) (xs @ ys) = xs @ takeWhile (\<lambda>x. x \<noteq> t) ys"
  by (induction xs) auto

lemma tally_step_keys:
  "map fst (tally_step t acc) = (if t \<in> set (map fst acc) then map fst acc else map fst acc @ [t])"
  by (simp add: tally_step_def update_keys)

lemma tally_step_map_of:
  "map_of (tally_step t acc) u = (if u = t then Some (or_zero (map_of acc t) + 1) else map_of acc u)"
  by (simp add: tally_step_def update_conv')

lemma mostCommonType_snoc: "mostCommonType (ts @ [t]) = tally_step t (mostCommonType ts)"
  by (simp add: mostCommonType_def)

lemma mostCommonType_map_of:
  "map_of (mostCommonType ts) u = (if u \<in> set ts then Some (int (count_list ts u)) else None)"
proof (induction ts arbitrary: u rule: rev_induct)
  case Nil
  show ?case by (simp add: mostCommonType_def)
next
  case (snoc t ts)
  show ?case by (simp add: mostCommonType_snoc tally_step_map_of snoc.IH)
qed

lemma mostCommonType_keys: "set (map fst (mostCommonType ts)) = set ts"
proof -
  have "set (map fst (mostCommonType ts)) = dom (map_of (mostCommonType ts))"
    by (simp add: dom_map_of_conv_image_fst)
  also have "\<dots> = set ts" by (auto simp: dom_def mostCommonType_map_of)
  finally show ?thesis .
qed

lemma mostCommonType_distinct: "distinct (map fst (mostCommonType ts))"
proof (induction ts rule: rev_induct)
  case Nil
  show ?case by (simp add: mostCommonType_def)
next
  case (snoc t ts)
  then show ?case by (simp add: mostCommonType_snoc tally_step_def distinct_update)
qed

lemma mostCommonType_entry:
  assumes "(u, n) \<in> set (mostCommonType ts)"
  shows "u \<in> set ts \<and> n = int (count_list ts u)"
proof -
  have "map_of (mostCommonType ts) u = Some n"
    using assms mostCommonType_distinct by (metis map_of_is_SomeI)
  then show ?thesis by (simp add: mostCommonType_map_of split: if_splits)
qed

lemma mostCommonType_before:
  "set (takeWhile (\<lambda>x. x \<noteq> t) (map fst (mostCommonType ts))) = set (takeWhile (\<lambda>x. x \<noteq> t) ts)"
proof (induction ts rule: rev_induct)
  case Nil
  show ?case by (simp add: mostCommonType_def)
next
  case (snoc x ts)
  let ?K = "map fst (mostCommonType ts)"
  have K: "set ?K = set ts" by (rule mostCommonType_keys)
  show ?case
  proof (cases "t \<in> set ts")
    case True
    then have "takeWhile (\<lambda>x. x \<noteq> t) (ts @ [x]) = takeWhile (\<lambda>x. x \<noteq> t) ts"
      by (simp add: takeWhile_append1)
    moreover have "takeWhile (\<lambda>x. x \<noteq> t) (?K @ [x]) = takeWhile (\<lambda>x. x \<noteq> t) ?K"
      using True K by (metis (mono_tags, lifting) takeWhile_append1)
    ultimately show ?thesis
      using snoc.IH by (simp add: mostCommonType_snoc tally_step_keys)
  next
    case False
    then have a: "takeWhile (\<lambda>x. x \<noteq> t) ts = ts" "takeWhile (\<lambda>x. x \<noteq> t) ?K = ?K"
      using K by (auto simp: takeWhile_eq_all_conv)
    have b: "takeWhile (\<lambda>x. x \<noteq> t) (ts @ [x]) = ts @ takeWhile (\<lambda>x. x \<noteq> t) [x]"
      using False by (rule takeWhile_neq_pass)
    have c: "takeWhile (\<lambda>x. x \<noteq> t) (?K @ [x]) = ?K @ takeWhile (\<lambda>x. x \<noteq> t) [x]"
      using False K by (simp add: takeWhile_neq_pass)
    have keys: "map fst (mostCommonType (ts @ [x])) = (if x \<in> set ts then ?K else ?K @ [x])"
      using K by (simp add: mostCommonType_snoc tally_step_keys)
    show ?thesis
    proof (cases "x \<in> set ts")
      case True
      then have "x \<noteq> t" using False by blast
      then have "set (takeWhile (\<lambda>x. x \<noteq> t) (ts @ [x])) = set ts"
        using True by (simp only: b) auto
      moreover have "set (takeWhile (\<lambda>x. x \<noteq> t) (map fst (mostCommonType (ts @ [x])))) = set ts"
        using True K by (simp only: keys a if_True)
      ultimately show ?thesis by simp
    next
      case False
      then show ?thesis using K by (simp only: keys b c if_False set_append)
    qed
  qed
qed

lemma sort_by_Cons: "sort_by cmp (x # xs) = insert_by cmp x (sort_by cmp xs)"
  by (simp add: sort_by_def)

lemma sort_by_head:
  "xs \<noteq> [] \<Longrightarrow>
     \<exists>pre t n post rest.
        xs = pre @ (t, n) # post \<and> sort_by (\<lambda>a b. snd b - snd a) xs = (t, n) # rest
        \<and> (\<forall>e \<in> set pre. snd e < n) \<and> (\<forall>e \<in> set post. snd e \<le> n)"
proof (induction xs)
  case Nil
  then show ?case by simp
next
  case (Cons x xs)
  let ?cmp = "\<lambda>(a :: 'a \<times> int) (b :: 'a \<times> int). snd b - snd a"
  show ?case
  proof (cases "xs = []")
    case True
    have "x # xs = [] @ (fst x, snd x) # []" using True by simp
    moreover have "sort_by ?cmp (x # xs) = (fst x, snd x) # []"
      using True by (simp add: sort_by_def)
    ultimately show ?thesis by (metis empty_iff empty_set)
  next
    case False
    from Cons.IH [OF False] obtain pre t n post rest where
      xs: "xs = pre @ (t, n) # post" and so: "sort_by ?cmp xs = (t, n) # rest"
      and pre: "\<forall>e \<in> set pre. snd e < n" and post: "\<forall>e \<in> set post. snd e \<le> n"
      by blast
    show ?thesis
    proof (cases "n \<le> snd x")
      case True
      have "sort_by ?cmp (x # xs) = (fst x, snd x) # (t, n) # rest"
        using True by (simp add: sort_by_Cons so)
      moreover have "x # xs = [] @ (fst x, snd x) # xs" by simp
      moreover have "\<forall>e \<in> set xs. snd e \<le> snd x"
        using xs pre post True by auto
      ultimately show ?thesis by (metis empty_iff empty_set)
    next
      case False
      have "sort_by ?cmp (x # xs) = (t, n) # insert_by ?cmp x rest"
        using False by (simp add: sort_by_Cons so)
      moreover have "x # xs = (x # pre) @ (t, n) # post" using xs by simp
      moreover have "\<forall>e \<in> set (x # pre). snd e < n" using pre False by auto
      ultimately show ?thesis using post by blast
    qed
  qed
qed

lemma dominantType_char:
  assumes "cs \<noteq> []"
  shows "\<exists>t. dominantType cs = Inr t \<and> t \<in> set (commitTypes cs)
           \<and> (\<forall>u. count_list (commitTypes cs) u \<le> count_list (commitTypes cs) t)
           \<and> (\<forall>u \<in> set (takeWhile (\<lambda>x. x \<noteq> t) (commitTypes cs)).
                 count_list (commitTypes cs) u < count_list (commitTypes cs) t)"
proof -
  let ?ts = "commitTypes cs"
  let ?m = "mostCommonType ?ts"
  have ne: "?ts \<noteq> []" using assms by (simp add: commitTypes_def)
  have E: "Object_entries array_index_of_type ?m = ?m"
    by (simp add: Object_entries_def array_index_of_type_def)
  have "?m \<noteq> []" using mostCommonType_keys [of ?ts] ne by (metis list.map_disc_iff set_empty)
  from sort_by_head [OF this] obtain pre t n post rest where
    m: "?m = pre @ (t, n) # post" and so: "sort_by (\<lambda>a b. snd b - snd a) ?m = (t, n) # rest"
    and pre: "\<forall>e \<in> set pre. snd e < n" and post: "\<forall>e \<in> set post. snd e \<le> n"
    by blast
  have d: "dominantType cs = Inr t"
    by (simp add: dominantType_def E so)
  have tn: "t \<in> set ?ts \<and> n = int (count_list ?ts t)"
    using mostCommonType_entry [of t n ?ts] m by simp
  have le: "count_list ?ts u \<le> count_list ?ts t" for u
  proof (cases "u \<in> set ?ts")
    case True
    then have "u \<in> set (map fst ?m)" by (simp only: mostCommonType_keys)
    then obtain k where k: "(u, k) \<in> set ?m" by auto
    then have "k = int (count_list ?ts u)" using mostCommonType_entry by blast
    moreover have "k \<le> n" using k m pre post by auto
    ultimately show ?thesis using tn by simp
  next
    case False
    then show ?thesis by (simp add: count_list_0_iff)
  qed
  have lt: "count_list ?ts u < count_list ?ts t"
    if "u \<in> set (takeWhile (\<lambda>x. x \<noteq> t) ?ts)" for u
  proof -
    have "t \<notin> set (map fst pre)"
      using mostCommonType_distinct [of ?ts] m by auto
    then have "takeWhile (\<lambda>x. x \<noteq> t) (map fst ?m) = map fst pre"
      using m by (simp add: takeWhile_neq_stop)
    then have "u \<in> set (map fst pre)"
      using that mostCommonType_before [of t ?ts] by simp
    then obtain k where k: "(u, k) \<in> set pre" by auto
    then have "(u, k) \<in> set ?m" using m by simp
    then have "k = int (count_list ?ts u)" using mostCommonType_entry by blast
    moreover have "k < n" using k pre by auto
    ultimately show ?thesis using tn by simp
  qed
  show ?thesis using d tn le lt by blast
qed

section \<open>The claims about categories\<close>

lemma commitTypes_of_types: "commitTypes (commits_of_types ts) = ts"
  by (induction ts)
     (simp_all add: commitTypes_def commits_of_types_def commit_at_def analyses_of_def
        analysis_of_type_def)

lemma dominantType_tally:
  "dominantType cs =
     (case sort_by (\<lambda>a b. snd b - snd a) (mostCommonType (commitTypes cs)) of
        [] \<Rightarrow> Inl TypeError | e # _ \<Rightarrow> Inr (fst e))"
  by (simp add: dominantType_def Object_entries_def array_index_of_type_def)

lemmas tally_eval = mostCommonType_def tally_step_def sort_by_def

lemma first_index_less: "x \<in> set xs \<Longrightarrow> first_index xs x < length xs"
  by (induction xs) (auto simp: first_index_def)

lemma first_index_nth: "x \<in> set xs \<Longrightarrow> xs ! first_index xs x = x"
  by (induction xs) (auto simp: first_index_def)

text \<open>
  C3, dominant category of a multi-member cluster. For a cluster with two or more members
  \<open>dominantType\<close> returns a category that occurs among the members' effective categories
  and whose frequency there is maximal; three members with the categories FEATURE,
  FEATURE, BUG give FEATURE.
\<close>

theorem dominantType_most_frequent:
  "(2 \<le> length cs \<longrightarrow>
      (\<exists>t. dominantType cs = Inr t \<and> t \<in> set (commitTypes cs)
           \<and> (\<forall>u. count_list (commitTypes cs) u \<le> count_list (commitTypes cs) t)))
   \<and> (commitTypes [a, b, c] = [FEATURE, FEATURE, BUG] \<longrightarrow> dominantType [a, b, c] = Inr FEATURE)"
proof (intro conjI impI)
  assume "2 \<le> length cs"
  then have "cs \<noteq> []" by auto
  from dominantType_char [OF this]
  show "\<exists>t. dominantType cs = Inr t \<and> t \<in> set (commitTypes cs)
           \<and> (\<forall>u. count_list (commitTypes cs) u \<le> count_list (commitTypes cs) t)"
    by blast
next
  assume "commitTypes [a, b, c] = [FEATURE, FEATURE, BUG]"
  then show "dominantType [a, b, c] = Inr FEATURE"
    by (simp add: dominantType_tally tally_eval)
qed

theorem dominantType_most_frequent_witness:
  "2 \<le> length (commits_of_types [FEATURE, FEATURE, BUG])
   \<and> commitTypes (commits_of_types [FEATURE, FEATURE, BUG]) = [FEATURE, FEATURE, BUG]
   \<and> dominantType (commits_of_types [FEATURE, FEATURE, BUG]) = Inr FEATURE
   \<and> (\<exists>t. dominantType (commits_of_types [FEATURE, FEATURE, BUG]) = Inr t
          \<and> (\<forall>u. count_list [FEATURE, FEATURE, BUG] u \<le> count_list [FEATURE, FEATURE, BUG] t))"
proof -
  let ?cs = "commits_of_types [FEATURE, FEATURE, BUG]"
  have l: "2 \<le> length ?cs" by (simp add: commits_of_types_def)
  have t: "commitTypes ?cs = [FEATURE, FEATURE, BUG]" by (rule commitTypes_of_types)
  have e: "?cs = [commit_at ''sha'' 50 (Some [analysis_of_type FEATURE]),
                  commit_at ''sha'' 50 (Some [analysis_of_type FEATURE]),
                  commit_at ''sha'' 50 (Some [analysis_of_type BUG])]"
    by (simp add: commits_of_types_def)
  have g: "\<exists>t. dominantType ?cs = Inr t \<and> t \<in> set (commitTypes ?cs)
           \<and> (\<forall>u. count_list (commitTypes ?cs) u \<le> count_list (commitTypes ?cs) t)"
    using dominantType_most_frequent [of ?cs] l by blast
  have s: "dominantType ?cs = Inr FEATURE"
    using dominantType_most_frequent
            [of ?cs "commit_at ''sha'' 50 (Some [analysis_of_type FEATURE])"
                "commit_at ''sha'' 50 (Some [analysis_of_type FEATURE])"
                "commit_at ''sha'' 50 (Some [analysis_of_type BUG])"] t
    by (simp only: e)
  show ?thesis using l t g s by (simp only: simp_thms) blast
qed

text \<open>
  C4, tie-break. For a cluster with two or more members the dominant category has maximal
  frequency, and every other category with the same frequency has its first occurrence
  among the members' effective categories later than the dominant one has.
\<close>

theorem dominantType_tie_break:
  assumes "2 \<le> length cs"
  shows "\<exists>t. dominantType cs = Inr t
           \<and> (\<forall>u \<in> set (commitTypes cs). count_list (commitTypes cs) u \<le> count_list (commitTypes cs) t)
           \<and> (\<forall>u \<in> set (commitTypes cs).
                 u \<noteq> t \<and> count_list (commitTypes cs) u = count_list (commitTypes cs) t \<longrightarrow>
                 first_index (commitTypes cs) t < first_index (commitTypes cs) u)"
proof -
  let ?ts = "commitTypes cs"
  from assms have "cs \<noteq> []" by auto
  from dominantType_char [OF this] obtain t where
    d: "dominantType cs = Inr t" and m: "t \<in> set ?ts"
    and le: "\<forall>u. count_list ?ts u \<le> count_list ?ts t"
    and lt: "\<forall>u \<in> set (takeWhile (\<lambda>x. x \<noteq> t) ?ts). count_list ?ts u < count_list ?ts t"
    by blast
  have "first_index ?ts t < first_index ?ts u"
    if u: "u \<in> set ?ts" "u \<noteq> t" "count_list ?ts u = count_list ?ts t" for u
  proof (rule ccontr)
    assume "\<not> first_index ?ts t < first_index ?ts u"
    then have le': "first_index ?ts u \<le> first_index ?ts t" by simp
    have at_u: "?ts ! first_index ?ts u = u" using u(1) by (rule first_index_nth)
    have at_t: "?ts ! first_index ?ts t = t" using m by (rule first_index_nth)
    have "first_index ?ts u \<noteq> first_index ?ts t" using at_u at_t u(2) by metis
    with le' have less: "first_index ?ts u < length (takeWhile (\<lambda>x. x \<noteq> t) ?ts)"
      unfolding first_index_def by simp
    then have "takeWhile (\<lambda>x. x \<noteq> t) ?ts ! first_index ?ts u = u"
      using at_u by (simp add: takeWhile_nth)
    then have "u \<in> set (takeWhile (\<lambda>x. x \<noteq> t) ?ts)" using less by (metis nth_mem)
    then show False using lt u(3) by auto
  qed
  then show ?thesis using d le by blast
qed

theorem dominantType_tie_break_witness:
  "2 \<le> length (commits_of_types [BUG, FEATURE, CHORE, FEATURE, BUG])
   \<and> dominantType (commits_of_types [BUG, FEATURE, CHORE, FEATURE, BUG]) = Inr BUG
   \<and> count_list [BUG, FEATURE, CHORE, FEATURE, BUG] FEATURE
       = count_list [BUG, FEATURE, CHORE, FEATURE, BUG] BUG
   \<and> first_index [BUG, FEATURE, CHORE, FEATURE, BUG] BUG
       < first_index [BUG, FEATURE, CHORE, FEATURE, BUG] FEATURE"
proof -
  let ?ts = "[BUG, FEATURE, CHORE, FEATURE, BUG]"
  let ?cs = "commits_of_types ?ts"
  have l: "2 \<le> length ?cs" by (simp add: commits_of_types_def)
  have t: "commitTypes ?cs = ?ts" by (rule commitTypes_of_types)
  have d: "dominantType ?cs = Inr BUG"
    by (simp add: dominantType_tally t tally_eval)
  from dominantType_tie_break [OF l] d
  have "\<forall>u \<in> set ?ts. u \<noteq> BUG \<and> count_list ?ts u = count_list ?ts BUG \<longrightarrow>
           first_index ?ts BUG < first_index ?ts u"
    by (simp only: t) auto
  then have "first_index ?ts BUG < first_index ?ts FEATURE" by simp
  then show ?thesis using l d by simp
qed

text \<open>
  C5, effective category. The analyses read for a commit are \<open>commit_analyses\<close> when that
  field is present and \<open>commit_analises\<close> otherwise. The category of a commit is the
  category of the first of them, and CHORE when there is none; the singleton marker is
  drawn with it, and the categories tallied for a multi-member cluster are the same
  category of each member.
\<close>

theorem effective_category:
  "(analyses_of c = [] \<longrightarrow> commitType c = CHORE)
   \<and> (\<forall>a rest. analyses_of c = a # rest \<longrightarrow> commitType c = type a)
   \<and> commitTypes cs = map commitType cs
   \<and> renderCluster \<lparr>position = p, commits = [c]\<rparr> = Inr (CommitMarker (sha c) (commitType c) p)
   \<and> (\<forall>as. commit_analyses c = Some as \<longrightarrow> analyses_of c = as)
   \<and> (\<forall>as. commit_analyses c = None \<and> commit_analises c = Some as \<longrightarrow> analyses_of c = as)
   \<and> (commit_analyses c = None \<and> commit_analises c = None \<longrightarrow> analyses_of c = [])"
  by (simp add: commitType_def first_analysis_def commitTypes_def renderCluster_def
        analyses_of_def split: list.splits)

theorem effective_category_witness:
  "analyses_of (commit_at ''a'' 7 None) = []
   \<and> commitType (commit_at ''a'' 7 None) = CHORE
   \<and> analyses_of (commit_at ''b'' 7 (Some [analysis_of_type BUG, analysis_of_type FEATURE]))
       = analysis_of_type BUG # [analysis_of_type FEATURE]
   \<and> commitType (commit_at ''b'' 7 (Some [analysis_of_type BUG, analysis_of_type FEATURE])) = BUG"
proof -
  have a: "analyses_of (commit_at ''a'' 7 None) = []"
    by (simp add: analyses_of_def commit_at_def)
  have b: "analyses_of (commit_at ''b'' 7 (Some [analysis_of_type BUG, analysis_of_type FEATURE]))
       = analysis_of_type BUG # [analysis_of_type FEATURE]"
    by (simp add: analyses_of_def commit_at_def)
  have "commitType (commit_at ''a'' 7 None) = CHORE"
    using effective_category [of "commit_at ''a'' 7 None"] a by blast
  moreover have "commitType (commit_at ''b'' 7 (Some [analysis_of_type BUG, analysis_of_type FEATURE]))
       = type (analysis_of_type BUG)"
    using effective_category
            [of "commit_at ''b'' 7 (Some [analysis_of_type BUG, analysis_of_type FEATURE])"] b
    by blast
  ultimately show ?thesis using a b by (simp add: analysis_of_type_def)
qed

section \<open>The claim about the rendered rows\<close>

lemma clusterCommits_nonempty: "cs \<noteq> [] \<Longrightarrow> clusterCommits calc tr ts cs g \<noteq> []"
  using clusterCommits_positions_set [of calc tr ts cs g] by (cases cs) auto

lemma renderedRows_filter:
  "renderedRows calc tr ts G =
     map (\<lambda>e. \<lparr>row_key = fst e, row_clusters = clusterCommits calc tr ts (snd e) (fst e)\<rparr>)
       (filter (\<lambda>e. snd e \<noteq> []) (Object_entries array_index_of_string G))"
proof -
  have "concat (map (\<lambda>r. case r of None \<Rightarrow> [] | Some row \<Rightarrow> [row])
          (map (\<lambda>(groupName, groupCommits).
                  if length groupCommits > 0
                  then Some \<lparr>row_key = groupName,
                             row_clusters = clusterCommits calc tr ts groupCommits groupName\<rparr>
                  else None) es))
        = map (\<lambda>e. \<lparr>row_key = fst e, row_clusters = clusterCommits calc tr ts (snd e) (fst e)\<rparr>)
            (filter (\<lambda>e. snd e \<noteq> []) es)" for es :: "(string \<times> 'a Commit list) list"
    by (induction es) (auto simp: case_prod_beta)
  then show ?thesis by (simp add: renderedRows_def renderGroups_def)
qed

lemma groups_with_empty_entries:
  "Object_entries array_index_of_string groups_with_empty = groups_with_empty"
  by (simp add: Object_entries_def groups_with_empty_def array_index_of_string_def is_digit_def)

lemma groupCommits_snoc:
  "groupCommits dayString (cs @ [c]) key = group_step dayString key c (groupCommits dayString cs key)"
  by (simp add: groupCommits_def)

lemma group_step_map_of:
  "map_of (group_step dayString key c m) k =
     (if k = groupName_of dayString key c
      then Some ((case map_of m k of None \<Rightarrow> [] | Some xs \<Rightarrow> xs) @ [c])
      else map_of m k)"
  by (simp add: group_step_def Let_def update_conv')

lemma groupCommits_distinct: "distinct (map fst (groupCommits dayString cs key))"
proof (induction cs rule: rev_induct)
  case Nil
  show ?case by (simp add: groupCommits_def)
next
  case (snoc c cs)
  then show ?case by (simp add: groupCommits_snoc group_step_def Let_def distinct_update)
qed

lemma groupCommits_map_of:
  "map_of (groupCommits dayString cs key) k =
     (if k \<in> groupName_of dayString key ` set cs
      then Some (filter (\<lambda>c. groupName_of dayString key c = k) cs) else None)"
proof (induction cs arbitrary: k rule: rev_induct)
  case Nil
  show ?case by (simp add: groupCommits_def)
next
  case (snoc c cs)
  show ?case
    by (auto simp: groupCommits_snoc group_step_map_of snoc.IH filter_empty_conv
                   empty_filter_conv image_iff)
qed

lemma groupCommits_entry:
  assumes "(k, g) \<in> set (groupCommits dayString cs key)"
  shows "g = filter (\<lambda>c. groupName_of dayString key c = k) cs \<and> g \<noteq> []"
proof -
  have "map_of (groupCommits dayString cs key) k = Some g"
    using assms groupCommits_distinct by (metis map_of_is_SomeI)
  then have "k \<in> groupName_of dayString key ` set cs"
    and g: "g = filter (\<lambda>c. groupName_of dayString key c = k) cs"
    by (simp_all add: groupCommits_map_of split: if_splits)
  then show ?thesis by (auto simp: filter_empty_conv)
qed

lemma groupCommits_keys:
  "set (map fst (groupCommits dayString cs key)) = groupName_of dayString key ` set cs"
proof -
  have "set (map fst (groupCommits dayString cs key)) = dom (map_of (groupCommits dayString cs key))"
    by (simp add: dom_map_of_conv_image_fst)
  also have "\<dots> = groupName_of dayString key ` set cs"
    by (auto simp: dom_def groupCommits_map_of)
  finally show ?thesis .
qed

lemma renderedRows_element:
  assumes "row \<in> set (renderedRows calc tr ts G)"
  shows "\<exists>g. (row_key row, g) \<in> set G \<and> 0 < length g
           \<and> row_clusters row = clusterCommits calc tr ts g (row_key row)
           \<and> row_clusters row \<noteq> []"
proof -
  from assms obtain e where e: "e \<in> set (Object_entries array_index_of_string G)" "snd e \<noteq> []"
    and r: "row = \<lparr>row_key = fst e, row_clusters = clusterCommits calc tr ts (snd e) (fst e)\<rparr>"
    by (auto simp: renderedRows_filter)
  from e(1) have "(fst e, snd e) \<in> set G" by (simp add: Object_entries_set)
  then show ?thesis
    using e(2) r clusterCommits_nonempty [OF e(2), of calc tr ts "fst e"]
    by (intro exI [of _ "snd e"]) simp
qed

lemma groups_by_type:
  "groupCommits day_of (commits_of_types [FEATURE, BUG, FEATURE]) ByType =
     [(''FEATURE'', [commit_at ''sha'' 50 (Some [analysis_of_type FEATURE]),
                     commit_at ''sha'' 50 (Some [analysis_of_type FEATURE])]),
      (''BUG'', [commit_at ''sha'' 50 (Some [analysis_of_type BUG])])]"
  by (simp add: groupCommits_def group_step_def commits_of_types_def commitType_def
        first_analysis_def analyses_of_def commit_at_def analysis_of_type_def)

lemma groups_by_type_entries:
  "map fst (Object_entries array_index_of_string
     (groupCommits day_of (commits_of_types [FEATURE, BUG, FEATURE]) ByType)) = [''FEATURE'', ''BUG'']"
  by (simp add: groups_by_type Object_entries_def array_index_of_string_def is_digit_def)

text \<open>
  C6, empty groups are omitted. For every commit collection and grouping key the grouped
  output has no group without members: each group of \<open>groupCommits\<close> is the non-empty list of
  the commits with that group name, in input order, and the group names are exactly the
  names that occur. So the render draws one row for every group of that output, each row
  belonging to a group with at least one commit and holding its (non-empty) clusters. The
  guard of the render itself does not depend on that: whatever mapping it is given, the
  rows it draws are those of the groups with at least one commit.
\<close>

theorem rendered_rows_nonempty:
  "(\<forall>e \<in> set (groupCommits dayString cs key).
      snd e \<noteq> [] \<and> snd e = filter (\<lambda>c. groupName_of dayString key c = fst e) cs)
   \<and> set (map fst (groupCommits dayString cs key)) = groupName_of dayString key ` set cs
   \<and> (\<forall>row \<in> set (renderedRows calc tr ts (groupCommits dayString cs key)).
        \<exists>g. (row_key row, g) \<in> set (groupCommits dayString cs key) \<and> 0 < length g
           \<and> row_clusters row = clusterCommits calc tr ts g (row_key row)
           \<and> row_clusters row \<noteq> [])
   \<and> map row_key (renderedRows calc tr ts (groupCommits dayString cs key))
       = map fst (Object_entries array_index_of_string (groupCommits dayString cs key))
   \<and> (\<forall>row \<in> set (renderedRows calc tr ts G).
        \<exists>g. (row_key row, g) \<in> set G \<and> 0 < length g
           \<and> row_clusters row = clusterCommits calc tr ts g (row_key row)
           \<and> row_clusters row \<noteq> [])
   \<and> map row_key (renderedRows calc tr ts G)
       = map fst (filter (\<lambda>e. snd e \<noteq> []) (Object_entries array_index_of_string G))"
proof (intro conjI ballI)
  fix e assume "e \<in> set (groupCommits dayString cs key)"
  then have "(fst e, snd e) \<in> set (groupCommits dayString cs key)" by simp
  from groupCommits_entry [OF this]
  show "snd e \<noteq> []" and "snd e = filter (\<lambda>c. groupName_of dayString key c = fst e) cs"
    by blast+
next
  show "set (map fst (groupCommits dayString cs key)) = groupName_of dayString key ` set cs"
    by (rule groupCommits_keys)
next
  fix row assume "row \<in> set (renderedRows calc tr ts (groupCommits dayString cs key))"
  then show "\<exists>g. (row_key row, g) \<in> set (groupCommits dayString cs key) \<and> 0 < length g
           \<and> row_clusters row = clusterCommits calc tr ts g (row_key row)
           \<and> row_clusters row \<noteq> []"
    by (rule renderedRows_element)
next
  have "\<forall>e \<in> set (Object_entries array_index_of_string (groupCommits dayString cs key)). snd e \<noteq> []"
    using groupCommits_entry [of _ _ dayString cs key] by (auto simp: Object_entries_set)
  then have "filter (\<lambda>e. snd e \<noteq> []) (Object_entries array_index_of_string (groupCommits dayString cs key))
        = Object_entries array_index_of_string (groupCommits dayString cs key)"
    by (simp add: filter_id_conv)
  then show "map row_key (renderedRows calc tr ts (groupCommits dayString cs key))
       = map fst (Object_entries array_index_of_string (groupCommits dayString cs key))"
    by (simp add: renderedRows_filter comp_def)
next
  fix row assume "row \<in> set (renderedRows calc tr ts G)"
  then show "\<exists>g. (row_key row, g) \<in> set G \<and> 0 < length g
           \<and> row_clusters row = clusterCommits calc tr ts g (row_key row)
           \<and> row_clusters row \<noteq> []"
    by (rule renderedRows_element)
next
  show "map row_key (renderedRows calc tr ts G)
       = map fst (filter (\<lambda>e. snd e \<noteq> []) (Object_entries array_index_of_string G))"
    by (simp add: renderedRows_filter comp_def)
qed

theorem rendered_rows_nonempty_witness:
  "map fst (groupCommits day_of (commits_of_types [FEATURE, BUG, FEATURE]) ByType)
     = [''FEATURE'', ''BUG'']
   \<and> map (\<lambda>e. length (snd e)) (groupCommits day_of (commits_of_types [FEATURE, BUG, FEATURE]) ByType)
     = [2, 1]
   \<and> map row_key (renderedRows calculateCommitPosition_spec range_0_100 Day
                     (groupCommits day_of (commits_of_types [FEATURE, BUG, FEATURE]) ByType))
     = [''FEATURE'', ''BUG'']
   \<and> map row_key (renderedRows calculateCommitPosition_spec range_0_100 Day groups_with_empty)
     = [''BUG'']"
proof -
  note t = rendered_rows_nonempty
             [of day_of "commits_of_types [FEATURE, BUG, FEATURE]" ByType
                 calculateCommitPosition_spec range_0_100 Day groups_with_empty]
  note t4 = t [THEN conjunct2, THEN conjunct2, THEN conjunct2, THEN conjunct1]
  note t6 = t [THEN conjunct2, THEN conjunct2, THEN conjunct2, THEN conjunct2, THEN conjunct2]
  have a: "map fst (groupCommits day_of (commits_of_types [FEATURE, BUG, FEATURE]) ByType)
     = [''FEATURE'', ''BUG'']"
    by (simp add: groups_by_type)
  have b: "map (\<lambda>e. length (snd e)) (groupCommits day_of (commits_of_types [FEATURE, BUG, FEATURE]) ByType)
     = [2, 1]"
    by (simp add: groups_by_type)
  have c: "map row_key (renderedRows calculateCommitPosition_spec range_0_100 Day
                     (groupCommits day_of (commits_of_types [FEATURE, BUG, FEATURE]) ByType))
     = [''FEATURE'', ''BUG'']"
    using t4 by (simp only: groups_by_type_entries)
  have d: "map row_key (renderedRows calculateCommitPosition_spec range_0_100 Day groups_with_empty)
     = [''BUG'']"
    using t6 by (simp add: groups_with_empty_entries) (simp add: groups_with_empty_def commits_7_3_7_def)
  show ?thesis using a b c d by (intro conjI)
qed

section \<open>The claims about the URL functions\<close>

lemma concat_rev_upt_last:
  assumes "\<And>k. 1 \<le> k \<Longrightarrow> k < n \<Longrightarrow> f k = []"
  shows "concat (map f (rev [1..<Suc n])) = (if n = 0 then [] else f n)"
proof (cases "n = 0")
  case True
  then show ?thesis by simp
next
  case False
  then have "[1..<Suc n] = [1..<n] @ [n]" by (simp add: upt_Suc)
  moreover have "concat (map f (rev [1..<n])) = []"
    using assms by (simp add: concat_eq_Nil_conv) 
  ultimately show ?thesis using False by simp
qed

lemma rmatch_Plus_Seq:
  "rmatch (Seq (Plus cls) r) s =
     concat (map (\<lambda>k. rmatch r (drop k s)) (rev [1..<Suc (length (takeWhile cls s))]))"
  by (simp add: comp_def rev_map [symmetric] map_concat del: upt_Suc)

lemma drop_before_slash:
  assumes "k < length (takeWhile not_slash s)"
  shows "\<not> prefix ''/'' (drop k s)"
proof -
  have k: "k < length s" using assms length_takeWhile_le [of not_slash s] by simp
  have "takeWhile not_slash s ! k = s ! k" using assms by (rule takeWhile_nth)
  moreover have "takeWhile not_slash s ! k \<in> set (takeWhile not_slash s)"
    using assms by simp
  ultimately have "not_slash (s ! k)" by (metis set_takeWhileD)
  moreover have "drop k s = s ! k # drop (Suc k) s" using k by (simp add: Cons_nth_drop_Suc)
  ultimately show ?thesis by (simp add: not_slash_def)
qed

lemma rmatch_repo_group:
  "rmatch repo_group s =
     (if takeWhile not_slash s = [] then []
      else rmatch (Seq (Lit ''/'') (Plus not_slash)) (dropWhile not_slash s))"
proof -
  let ?n = "length (takeWhile not_slash s)"
  have "rmatch (Seq (Lit ''/'') (Plus not_slash)) (drop k s) = []" if "k < ?n" for k
    using drop_before_slash [OF that] by simp
  then have "rmatch repo_group s =
      (if ?n = 0 then [] else rmatch (Seq (Lit ''/'') (Plus not_slash)) (drop ?n s))"
    unfolding repo_group_def rmatch_Plus_Seq
    by (intro concat_rev_upt_last) simp
  then show ?thesis by (simp add: dropWhile_eq_drop)
qed

lemma rmatch_Plus_nil: "takeWhile cls s = [] \<Longrightarrow> rmatch (Plus cls) s = []"
  by simp

lemma rmatch_Plus_head:
  "takeWhile cls s \<noteq> [] \<Longrightarrow>
     rmatch (Plus cls) s =
       drop (length (takeWhile cls s)) s
       # map (\<lambda>k. drop k s) (rev [1..<length (takeWhile cls s)])"
  by (simp add: Suc_le_eq)

lemma rmatch_slash_Plus:
  "rmatch (Seq (Lit ''/'') (Plus not_slash)) s =
     (if prefix ''/'' s then rmatch (Plus not_slash) (tl s) else [])"
  by (cases s) (simp_all del: upt_Suc)

lemma not_slash_eq: "not_slash = (\<lambda>c. c \<noteq> CHR ''/'')"
  by (rule ext) (simp add: not_slash_def)

lemma rmatch_repo_prefix:
  "rmatch repo_prefix s = (if prefix ''github.com/'' s then [drop 11 s] else [])"
proof -
  have "length ''github.com/'' = 11" by simp
  then show ?thesis by (simp only: repo_prefix_def rmatch.simps)
qed

lemma captures_at_prefix:
  "captures_at s =
     (if prefix ''github.com/'' s
      then map (\<lambda>r2. take (length (drop 11 s) - length r2) (drop 11 s)) (rmatch repo_group (drop 11 s))
      else [])"
  by (simp only: captures_at_def rmatch_repo_prefix if_distrib [of "map _"] list.map concat.simps
        append_Nil2 if_distrib [of concat])

lemma match_repo_step:
  "match_repo (c # cs) = (case captures_at (c # cs) of [] \<Rightarrow> match_repo cs | g # _ \<Rightarrow> Some g)"
  by simp

lemma first_repo_pair_step:
  "first_repo_pair (c # cs) =
     (if prefix ''github.com/'' (c # cs)
      then (case pair_after (drop 11 (c # cs)) of
              Some p \<Rightarrow> Some p
            | None \<Rightarrow> first_repo_pair cs)
      else first_repo_pair cs)"
  by (simp only: first_repo_pair.simps)

lemma captures_at_eq:
  "captures_at s =
     (if prefix ''github.com/'' s
      then (case pair_after (drop 11 s) of
              None \<Rightarrow> []
            | Some p \<Rightarrow> p # tl (captures_at s))
      else [])"
proof (cases "prefix ''github.com/'' s")
  case False
  then show ?thesis by (simp only: captures_at_prefix if_False)
next
  case True
  let ?r = "drop 11 s"
  let ?owner = "takeWhile not_slash ?r"
  let ?after = "dropWhile not_slash ?r"
  let ?repo = "takeWhile not_slash (tl ?after)"
  have c: "captures_at s = map (\<lambda>r2. take (length ?r - length r2) ?r) (rmatch repo_group ?r)"
    using True by (simp only: captures_at_prefix if_True)
  show ?thesis
  proof (cases "?owner \<noteq> [] \<and> ?after \<noteq> [] \<and> ?repo \<noteq> []")
    case False
    then have "pair_after ?r = None" by (simp add: pair_after_def not_slash_eq Let_def)
    moreover have "rmatch repo_group ?r = []"
    proof (cases "?owner = []")
      case True
      then show ?thesis by (simp add: rmatch_repo_group)
    next
      case o: False
      show ?thesis
      proof (cases "?after = []")
        case True
        have "rmatch (Seq (Lit ''/'') (Plus not_slash)) [] = []" by simp
        then have "rmatch (Seq (Lit ''/'') (Plus not_slash)) ?after = []" by (simp only: True)
        then show ?thesis by (simp only: rmatch_repo_group if_cancel)
      next
        case a: False
        then have "?repo = []" using False o by simp
        then have "rmatch (Plus not_slash) (tl ?after) = []" by (rule rmatch_Plus_nil)
        then show ?thesis by (simp only: rmatch_repo_group rmatch_slash_Plus if_cancel)
      qed
    qed
    ultimately show ?thesis using True by (simp only: c if_True option.case list.map)
  next
    case ok: True
    then have p: "pair_after ?r = Some (?owner @ ''/'' @ ?repo)"
      by (simp add: pair_after_def not_slash_eq Let_def)
    have hd_after: "hd ?after = CHR ''/''"
      using ok hd_dropWhile [of not_slash ?r] by (simp add: not_slash_def)
    then have after: "?after = CHR ''/'' # tl ?after" using ok by (metis list.collapse)
    then have pre: "prefix ''/'' ?after" by (metis Cons_prefix_Cons Nil_prefix)
    let ?n2 = "length ?repo"
    have g: "rmatch repo_group ?r =
               drop ?n2 (tl ?after) # map (\<lambda>k. drop k (tl ?after)) (rev [1..<?n2])"
    proof -
      have "rmatch repo_group ?r = rmatch (Plus not_slash) (tl ?after)"
        using ok pre by (simp only: rmatch_repo_group rmatch_slash_Plus if_True if_False)
      moreover have "?repo \<noteq> []" using ok by blast
      ultimately show ?thesis using rmatch_Plus_head [of not_slash "tl ?after"] by metis
    qed
    have r: "?r = ?owner @ CHR ''/'' # ?repo @ drop ?n2 (tl ?after)"
    proof -
      have "?r = ?owner @ ?after" by simp
      also have "\<dots> = ?owner @ CHR ''/'' # tl ?after" using after by simp
      also have "tl ?after = ?repo @ drop ?n2 (tl ?after)"
        by (metis takeWhile_dropWhile_id dropWhile_eq_drop)
      finally show ?thesis by simp
    qed
    have "take (length ?r - length (drop ?n2 (tl ?after))) ?r = ?owner @ ''/'' @ ?repo"
    proof -
      have "length ?r - length (drop ?n2 (tl ?after)) = length (?owner @ ''/'' @ ?repo)"
        by (subst r) simp
      then show ?thesis by (subst (2) r) simp
    qed
    then have "captures_at s = (?owner @ ''/'' @ ?repo) # tl (captures_at s)"
      by (simp add: c g)
    then show ?thesis using True by (simp only: p if_True option.case)
  qed
qed

lemma match_repo_eq: "match_repo s = first_repo_pair s"
proof (induction s)
  case Nil
  have "captures_at [] = []" by (subst captures_at_eq) simp
  then show ?case by simp
next
  case (Cons c cs)
  show ?case
  proof (cases "prefix ''github.com/'' (c # cs)")
    case False
    then have "captures_at (c # cs) = []" by (subst captures_at_eq) (simp only: if_False)
    then show ?thesis
      using False Cons.IH by (simp only: match_repo_step first_repo_pair_step if_False list.case)
  next
    case True
    show ?thesis
    proof (cases "pair_after (drop 11 (c # cs))")
      case None
      then have "captures_at (c # cs) = []"
        using True by (subst captures_at_eq) (simp only: if_True option.case)
      then show ?thesis
        using True None Cons.IH
        by (simp only: match_repo_step first_repo_pair_step if_True list.case option.case)
    next
      case (Some p)
      then have "captures_at (c # cs) = p # tl (captures_at (c # cs))"
        using True by (subst captures_at_eq) (simp only: if_True option.case)
      then have "match_repo (c # cs) = Some p"
        by (simp only: match_repo_step) (metis list.simps(5))
      then show ?thesis
        using True Some by (simp only: first_repo_pair_step if_True option.case)
    qed
  qed
qed

lemmas url_eval =
  extractRepoNameFromUrl_def cleanUrl_def urlWithoutParams_def captures_at_def repo_prefix_def
  repo_group_def not_slash_def suffix_to_prefix Let_def

lemmas form_eval =
  validateUrl_def githubRegex_def word_or_dash_def word_dot_or_dash_def word_char_def
  any_char_def trim_def is_space_def

lemma extract_with_params: "extractRepoNameFromUrl ''https://github.com/a/b.git?x=1#y'' = ''a/b''"
  by (simp add: url_eval)

text \<open>
  C9, \<open>extractRepoNameFromUrl\<close>. For every string the function is defined (it has no
  failing branch). It cuts the string before the first \<^verbatim>\<open>?\<close> or \<^verbatim>\<open>#\<close>, removes a trailing
  \<^verbatim>\<open>.git\<close>, and returns the owner/repo pair that follows the first occurrence of
  \<^verbatim>\<open>github.com/\<close> that has such a pair right after it (a non-empty run without \<^verbatim>\<open>/\<close>, a
  \<^verbatim>\<open>/\<close>, a non-empty run without \<^verbatim>\<open>/\<close>); it returns the empty string when no occurrence
  has one.
\<close>

theorem extractRepoNameFromUrl_spec:
  "extractRepoNameFromUrl url =
     (let u = takeWhile (\<lambda>c. c \<noteq> CHR ''?'' \<and> c \<noteq> CHR ''#'') url;
          clean = (if suffix ''.git'' u then take (length u - 4) u else u)
      in case first_repo_pair clean of Some p \<Rightarrow> p | None \<Rightarrow> [])"
  by (simp add: extractRepoNameFromUrl_def match_repo_eq cleanUrl_def urlWithoutParams_def Let_def)

theorem extractRepoNameFromUrl_spec_witness:
  "extractRepoNameFromUrl ''https://github.com/a/b.git?x=1#y'' = ''a/b''
   \<and> extractRepoNameFromUrl ''https://example.org/a/b'' = []"
  using extractRepoNameFromUrl_spec [of "''https://github.com/a/b.git?x=1#y''"]
        extractRepoNameFromUrl_spec [of "''https://example.org/a/b''"]
  by (simp add: suffix_to_prefix pair_after_def)

text \<open>
  The pair returned need not follow the first occurrence of \<^verbatim>\<open>github.com/\<close>: here the first
  occurrence is followed by \<^verbatim>\<open>/github.com/a/b\<close>, whose first run is empty, and the pair of
  the second occurrence is returned.
\<close>

theorem extractRepoNameFromUrl_counterexample:
  "extractRepoNameFromUrl ''https://github.com//github.com/a/b'' = ''a/b''
   \<and> text_after_first ''github.com/'' (cleanUrl ''https://github.com//github.com/a/b'')
       = Some ''/github.com/a/b''"
  by (simp add: url_eval)

lemma valid_a_b: "validateUrl ''https://github.com/a/b''"
  by (simp add: form_eval)

lemma valid_without_name: "extractRepoNameFromUrl ''https://github.com/a/.git'' = []
   \<and> validateUrl ''https://github.com/a/.git''"
  by (simp add: form_eval url_eval)

lemma submit_a_b:
  "handleSubmit (\<lambda>_. Inr True) (\<lambda>_ _ _. Inr ()) ''https://github.com/a/b'' =
     [PreventDefault, SetCheckingRepo True, CheckRepoExists ''a/b'', SetCheckingRepo False,
      OnSubmit ''https://github.com/a/b'' ''a/b'' True]"
  by (simp add: handleSubmit_def form_eval url_eval)

text \<open>
  C10, the submit guard. \<open>onSubmit\<close> is called only when the entered URL is non-empty after
  trimming, is accepted by \<open>validateUrl\<close> and has a non-empty extracted name, and then with
  that URL, that name and the answer of \<open>checkRepoExists\<close>; when one of the three checks
  fails it is not called.
\<close>

theorem handleSubmit_guard:
  "(OnSubmit u r e \<in> set (handleSubmit checkRepoExists onSubmit url) \<longrightarrow>
      trim url \<noteq> [] \<and> validateUrl url \<and> extractRepoNameFromUrl url \<noteq> []
      \<and> u = url \<and> r = extractRepoNameFromUrl url \<and> checkRepoExists r = Inr e)
   \<and> (trim url = [] \<or> \<not> validateUrl url \<or> extractRepoNameFromUrl url = [] \<longrightarrow>
        (\<forall>u' r' e'. OnSubmit u' r' e' \<notin> set (handleSubmit checkRepoExists onSubmit url)))"
  by (auto simp: handleSubmit_def Let_def split: if_splits sum.splits)

theorem handleSubmit_guard_witness:
  "OnSubmit ''https://github.com/a/b'' ''a/b'' True
     \<in> set (handleSubmit (\<lambda>_. Inr True) (\<lambda>_ _ _. Inr ()) ''https://github.com/a/b'')
   \<and> trim ''https://github.com/a/b'' \<noteq> [] \<and> validateUrl ''https://github.com/a/b''
   \<and> extractRepoNameFromUrl ''https://github.com/a/b'' = ''a/b''
   \<and> \<not> validateUrl ''github.com/a/b''
   \<and> OnSubmit ''github.com/a/b'' ''a/b'' True
        \<notin> set (handleSubmit (\<lambda>_. Inr True) (\<lambda>_ _ _. Inr ()) ''github.com/a/b'')"
proof -
  have m: "OnSubmit ''https://github.com/a/b'' ''a/b'' True
     \<in> set (handleSubmit (\<lambda>_. Inr True) (\<lambda>_ _ _. Inr ()) ''https://github.com/a/b'')"
    by (simp add: submit_a_b)
  have n: "\<not> validateUrl ''github.com/a/b''" by (simp add: form_eval)
  have "trim ''https://github.com/a/b'' \<noteq> [] \<and> validateUrl ''https://github.com/a/b''
        \<and> ''a/b'' = extractRepoNameFromUrl ''https://github.com/a/b''"
    using handleSubmit_guard
            [of "''https://github.com/a/b''" "''a/b''" True "\<lambda>_. Inr True" "\<lambda>_ _ _. Inr ()"
                "''https://github.com/a/b''"] m
    by blast
  moreover have "OnSubmit ''github.com/a/b'' ''a/b'' True
        \<notin> set (handleSubmit (\<lambda>_. Inr True) (\<lambda>_ _ _. Inr ()) ''github.com/a/b'')"
    using handleSubmit_guard [of _ _ _ "\<lambda>_. Inr True" "\<lambda>_ _ _. Inr ()" "''github.com/a/b''"] n
    by blast
  ultimately show ?thesis using m n by simp
qed

end
